theory Spec2Isabelle
  imports Complex_Main "HOL-Library.Word" "HOL-Library.Signed_Division"
begin

section \<open>The default integer hash (\<open>DefaultHashFunctions::generateHash\<close>)\<close>

text \<open>
  A C++ \<open>int\<close> key is a 32-bit two's complement word. \<open>std::abs\<close> negates a negative
  argument, and the negation wraps at the minimum value. The operator \<open>%\<close> truncates
  towards zero, which is \<open>smod\<close> on the signed reading. The upper limit is the slot
  count of the table, kept as an unbounded \<open>int\<close>.
\<close>

type_synonym int32 = "32 word"

definition INT_MIN :: int32 where
  "INT_MIN = - 2147483648"

definition std_abs :: "int32 \<Rightarrow> int32" where
  "std_abs x = (if sint x < 0 then - x else x)"

definition generateHash :: "int32 \<Rightarrow> int \<Rightarrow> int" where
  "generateHash key upperLimit = sint (std_abs key) smod upperLimit"

text \<open>
  The value of a 32-bit \<open>int\<close> computation whose exact result is \<open>x\<close>: two's complement
  wrap-around. Division of ints in C++ truncates towards zero (\<open>sdiv\<close>).
\<close>

definition int32 :: "int \<Rightarrow> int" where
  "int32 x = (x + 2147483648) mod 4294967296 - 2147483648"

section \<open>The hash map (\<open>HashMap\<close>)\<close>

text \<open>
  A bucket chain (\<open>HashEntry\<close> nodes linked through \<open>nextEntry\<close>) is the list of its
  (key, value) pairs, head first. \<open>slots\<close> is the array of chains and
  \<open>totalNumItems\<close> the item counter. The hash function is the template parameter
  \<open>HashFunctionToUse\<close>, passed as \<open>gh\<close>; the lock is the dummy one.
\<close>

record ('k, 'v) HashMap =
  slots :: "('k \<times> 'v) list list"
  totalNumItems :: int

text \<open>
  Modelled from the spec: \<open>Array::insertMultiple\<close>, which the constructor calls, is not
  among the sources. By the data model the slot array has length \<open>numSlots\<close>, every bucket
  empty at first; for a count below one the model inserts no slot.
\<close>

definition HashMap_new :: "int \<Rightarrow> ('k, 'v) HashMap" where
  "HashMap_new numberOfSlots = \<lparr>slots = replicate (nat numberOfSlots) [], totalNumItems = 0\<rparr>"

definition size_hm :: "('k, 'v) HashMap \<Rightarrow> int" where
  "size_hm m = totalNumItems m"

definition getNumSlots :: "('k, 'v) HashMap \<Rightarrow> int" where
  "getNumSlots m = int (length (slots m))"

text \<open>
  \<open>generateHashFor\<close> asserts that the hash lies in \<open>[0, getNumSlots)\<close>. A hash outside
  that range makes the unchecked slot access that follows undefined, so the model stops
  there with \<open>None\<close>.
\<close>

definition generateHashFor :: "('k \<Rightarrow> int \<Rightarrow> int) \<Rightarrow> ('k, 'v) HashMap \<Rightarrow> 'k \<Rightarrow> int option" where
  "generateHashFor gh m key =
     (let hash = gh key (getNumSlots m)
      in if 0 \<le> hash \<and> hash < getNumSlots m then Some hash else None)"

text \<open>The chain walk of \<open>operator[]\<close> and \<open>contains\<close>: the value of the first entry with the key.\<close>

fun find_chain :: "'k \<Rightarrow> ('k \<times> 'v) list \<Rightarrow> 'v option" where
  "find_chain keyToLookFor [] = None"
| "find_chain keyToLookFor (entry # rest) =
     (if fst entry = keyToLookFor then Some (snd entry) else find_chain keyToLookFor rest)"

text \<open>\<open>operator[]\<close>: \<open>dflt\<close> stands for the default-constructed \<open>ValueType()\<close>.\<close>

definition lookup_hm :: "('k \<Rightarrow> int \<Rightarrow> int) \<Rightarrow> 'v \<Rightarrow> ('k, 'v) HashMap \<Rightarrow> 'k \<Rightarrow> 'v option" where
  "lookup_hm gh dflt m keyToLookFor =
     (case generateHashFor gh m keyToLookFor of
        None \<Rightarrow> None
      | Some hashIndex \<Rightarrow>
          (case find_chain keyToLookFor (slots m ! nat hashIndex) of
             Some v \<Rightarrow> Some v
           | None \<Rightarrow> Some dflt))"

definition contains :: "('k \<Rightarrow> int \<Rightarrow> int) \<Rightarrow> ('k, 'v) HashMap \<Rightarrow> 'k \<Rightarrow> bool option" where
  "contains gh m keyToLookFor =
     (case generateHashFor gh m keyToLookFor of
        None \<Rightarrow> None
      | Some hashIndex \<Rightarrow>
          (case find_chain keyToLookFor (slots m ! nat hashIndex) of
             Some v \<Rightarrow> Some True
           | None \<Rightarrow> Some False))"

fun value_in_chain :: "'v \<Rightarrow> ('k \<times> 'v) list \<Rightarrow> bool" where
  "value_in_chain valueToLookFor [] = False"
| "value_in_chain valueToLookFor (entry # rest) =
     (if snd entry = valueToLookFor then True else value_in_chain valueToLookFor rest)"

definition containsValue :: "('k, 'v) HashMap \<Rightarrow> 'v \<Rightarrow> bool" where
  "containsValue m valueToLookFor = list_ex (value_in_chain valueToLookFor) (rev (slots m))"

text \<open>\<open>clear\<close> empties the chains from the last slot down to the first and resets the counter.\<close>

fun clear_slots :: "nat \<Rightarrow> ('k \<times> 'v) list list \<Rightarrow> ('k \<times> 'v) list list" where
  "clear_slots 0 s = s"
| "clear_slots (Suc i) s = clear_slots i (s[i := []])"

definition clear_hm :: "('k, 'v) HashMap \<Rightarrow> ('k, 'v) HashMap" where
  "clear_hm m = m\<lparr>slots := clear_slots (length (slots m)) (slots m), totalNumItems := 0\<rparr>"

text \<open>\<open>swapWith\<close> exchanges the slot arrays and the counters; the result is (this, other).\<close>

definition swapWith :: "('k, 'v) HashMap \<Rightarrow> ('k, 'v) HashMap \<Rightarrow> ('k, 'v) HashMap \<times> ('k, 'v) HashMap" where
  "swapWith this other =
     (this\<lparr>slots := slots other, totalNumItems := totalNumItems other\<rparr>,
      other\<lparr>slots := slots this, totalNumItems := totalNumItems this\<rparr>)"

text \<open>
  The search loop of \<open>set\<close>: the first entry with the key gets the new value and the
  function returns (\<open>Some\<close> of the updated chain); \<open>None\<close> when the loop runs off the end.
\<close>

fun set_chain :: "'k \<Rightarrow> 'v \<Rightarrow> ('k \<times> 'v) list \<Rightarrow> ('k \<times> 'v) list option" where
  "set_chain newKey newValue [] = None"
| "set_chain newKey newValue (entry # rest) =
     (if fst entry = newKey then Some ((fst entry, newValue) # rest)
      else map_option ((#) entry) (set_chain newKey newValue rest))"

text \<open>
  \<open>set\<close> and \<open>remapTable\<close> call each other: a new entry goes in front of its chain
  (\<open>new HashEntry (newKey, newValue, firstEntry)\<close>), and a counter above
  \<open>(getNumSlots() * 3) / 2\<close> rebuilds the table with \<open>getNumSlots() * 2\<close> slots. Both
  products are 32-bit \<open>int\<close> computations and wrap around. The increment of the counter is
  exact: in the maps built from new ones the counter stays below \<open>2^30\<close>
  (\<open>reachable_count_small\<close> below). \<open>remapTable\<close> walks the slots from the last to the
  first and each chain from its head, calling \<open>set\<close> on the new table (\<open>remapLoop\<close>), then
  swaps the new table in.
\<close>

function set_hm :: "('k \<Rightarrow> int \<Rightarrow> int) \<Rightarrow> ('k, 'v) HashMap \<Rightarrow> 'k \<Rightarrow> 'v \<Rightarrow> ('k, 'v) HashMap option"
  and remapTable :: "('k \<Rightarrow> int \<Rightarrow> int) \<Rightarrow> ('k, 'v) HashMap \<Rightarrow> int \<Rightarrow> ('k, 'v) HashMap option"
  and remapLoop :: "('k \<Rightarrow> int \<Rightarrow> int) \<Rightarrow> ('k \<times> 'v) list \<Rightarrow> ('k, 'v) HashMap \<Rightarrow> ('k, 'v) HashMap option"
where
  "set_hm gh m newKey newValue =
     (case generateHashFor gh m newKey of
        None \<Rightarrow> None
      | Some hashIndex \<Rightarrow>
          (let firstEntry = slots m ! nat hashIndex
           in case set_chain newKey newValue firstEntry of
                Some chain \<Rightarrow> Some (m\<lparr>slots := (slots m)[nat hashIndex := chain]\<rparr>)
              | None \<Rightarrow>
                  (let m1 = m\<lparr>slots := (slots m)[nat hashIndex := (newKey, newValue) # firstEntry],
                              totalNumItems := totalNumItems m + 1\<rparr>
                   in if totalNumItems m1 > int32 (getNumSlots m1 * 3) sdiv 2
                      then remapTable gh m1 (int32 (getNumSlots m1 * 2))
                      else Some m1)))"
| "remapTable gh m newNumberOfSlots =
     (case remapLoop gh (concat (rev (slots m))) (HashMap_new newNumberOfSlots) of
        None \<Rightarrow> None
      | Some newTable \<Rightarrow> Some (fst (swapWith m newTable)))"
| "remapLoop gh [] newTable = Some newTable"
| "remapLoop gh (entry # rest) newTable =
     (case set_hm gh newTable (fst entry) (snd entry) of
        None \<Rightarrow> None
      | Some newTable' \<Rightarrow> remapLoop gh rest newTable')"
  by pat_completeness auto

text \<open>
  Termination. A rebuild is called with the doubled slot count as a 32-bit value. Either
  that value is below one, and the new table has no slot and accepts no key, or it has one
  more factor two among its low 32 bits than the old count. \<open>slot_rank\<close> counts how many
  such doublings a slot count has left; no call of \<open>set\<close> raises it.
\<close>

definition numEntries :: "('k, 'v) HashMap \<Rightarrow> nat" where
  "numEntries m = length (concat (slots m))"

fun doublings_left :: "nat \<Rightarrow> int \<Rightarrow> nat" where
  "doublings_left 0 n = 0"
| "doublings_left (Suc f) n = (if even n then doublings_left f (n div 2) else Suc f)"

definition slot_rank :: "nat \<Rightarrow> nat" where
  "slot_rank n = (if n = 0 then 0 else Suc (doublings_left 32 (int n)))"

definition call_measure ::
  "('k \<Rightarrow> int \<Rightarrow> int) \<times> ('k, 'v) HashMap \<times> 'k \<times> 'v +
   ('k \<Rightarrow> int \<Rightarrow> int) \<times> ('k, 'v) HashMap \<times> int +
   ('k \<Rightarrow> int \<Rightarrow> int) \<times> ('k \<times> 'v) list \<times> ('k, 'v) HashMap \<Rightarrow> nat \<times> nat" where
  "call_measure c =
     (case c of
        Inl (gh, m, k, v) \<Rightarrow> (slot_rank (length (slots m)), 0)
      | Inr (Inl (gh, m, N)) \<Rightarrow> (slot_rank (nat N), numEntries m + 2)
      | Inr (Inr (gh, es, t)) \<Rightarrow> (slot_rank (length (slots t)), length es + 1))"

lemma int32_shift: "\<exists>k. int32 x = x + k * 4294967296"
proof -
  have "int32 x = x + (- ((x + 2147483648) div 4294967296)) * 4294967296"
    unfolding int32_def using div_mult_mod_eq[of "x + 2147483648" 4294967296] by linarith
  then show ?thesis by blast
qed

lemma int32_id: "- 2147483648 \<le> x \<Longrightarrow> x < 2147483648 \<Longrightarrow> int32 x = x"
  by (simp add: int32_def)

lemma int32_range: "- 2147483648 \<le> int32 x" "int32 x < 2147483648"
proof -
  have "0 \<le> (x + 2147483648) mod 4294967296" "(x + 2147483648) mod 4294967296 < 4294967296"
    by simp_all
  then show "- 2147483648 \<le> int32 x" "int32 x < 2147483648"
    by (simp_all add: int32_def)
qed

lemma doublings_left_shift: "doublings_left f (n + k * 2 ^ f) = doublings_left f n"
proof (induction f arbitrary: n k)
  case 0
  show ?case by simp
next
  case (Suc f)
  have "(n + k * 2 ^ Suc f) div 2 = n div 2 + k * 2 ^ f"
    by (simp add: mult.commute)
  with Suc[of "n div 2" k] show ?case by simp
qed

lemma doublings_left_Suc:
  "doublings_left (Suc f) n = (if 2 ^ Suc f dvd n then 0 else Suc (doublings_left f n))"
proof (induction f arbitrary: n)
  case 0
  show ?case by simp
next
  case (Suc f)
  show ?case
  proof (cases "even n")
    case True
    then obtain a where a: "n = 2 * a" by (auto elim: evenE)
    have "doublings_left (Suc (Suc f)) n = doublings_left (Suc f) a"
      by (simp add: a)
    also have "\<dots> = (if 2 ^ Suc f dvd a then 0 else Suc (doublings_left f a))"
      by (rule Suc)
    also have "doublings_left f a = doublings_left (Suc f) n" by (simp add: a)
    also have "2 ^ Suc f dvd a \<longleftrightarrow> 2 ^ Suc (Suc f) dvd n"
      using dvd_mult_cancel_left[of 2 "2 ^ Suc f" a] by (simp add: a)
    finally show ?thesis .
  next
    case False
    then have "\<not> 2 ^ Suc (Suc f) dvd n" by (metis dvd_trans dvd_triv_left power_Suc)
    with False show ?thesis by simp
  qed
qed

lemma slot_rank_double:
  assumes "0 < n"
  shows "slot_rank (nat (int32 (int n * 2))) < slot_rank n"
proof (cases "0 < int32 (int n * 2)")
  case False
  with assms show ?thesis by (simp add: slot_rank_def)
next
  case True
  from int32_shift[of "int n * 2"] obtain k where k: "int32 (int n * 2) = int n * 2 + k * 2 ^ 32"
    by auto
  have nd: "\<not> 2 ^ 32 dvd int n"
  proof
    assume "2 ^ 32 dvd int n"
    then obtain a where "int n = 2 ^ 32 * a" by (auto elim: dvdE)
    then have "int n * 2 + 2147483648 = 2147483648 + (2 * a) * 4294967296" by simp
    then have "(int n * 2 + 2147483648) mod 4294967296 = 2147483648 mod 4294967296"
      by (simp only: mod_mult_self1)
    then have "int32 (int n * 2) = 0" by (simp add: int32_def)
    with True show False by simp
  qed
  have "doublings_left 32 (int32 (int n * 2)) = doublings_left 32 (int n * 2)"
    unfolding k by (rule doublings_left_shift)
  also have "\<dots> = doublings_left 31 (int n)"
    by (simp add: eval_nat_numeral)
  finally have a: "doublings_left 32 (int32 (int n * 2)) = doublings_left 31 (int n)" .
  from doublings_left_Suc[of 31 "int n"] nd
  have b: "doublings_left 32 (int n) = Suc (doublings_left 31 (int n))" by simp
  from True a b assms show ?thesis by (simp add: slot_rank_def)
qed

lemma set_chain_length: "set_chain k v ch = Some ch' \<Longrightarrow> length ch' = length ch"
  by (induction ch arbitrary: ch') (auto split: if_splits)

lemma length_concat_update:
  "i < length xs \<Longrightarrow> length (concat (xs[i := y])) + length (xs ! i) = length (concat xs) + length y"
proof (induction xs arbitrary: i)
  case Nil
  then show ?case by simp
next
  case (Cons x xs)
  then show ?case by (cases i) auto
qed

lemma generateHashFor_less: "generateHashFor gh m k = Some h \<Longrightarrow> nat h < length (slots m)"
  by (auto simp: generateHashFor_def getNumSlots_def Let_def split: if_splits)

lemma generateHashFor_nonneg: "generateHashFor gh m k = Some h \<Longrightarrow> 0 \<le> h"
  by (auto simp: generateHashFor_def Let_def split: if_splits)

lemma generateHashFor_eq: "generateHashFor gh m k = Some h \<Longrightarrow> h = gh k (getNumSlots m)"
  by (auto simp: generateHashFor_def Let_def split: if_splits)

lemma HashMap_new_simps [simp]:
  "slots (HashMap_new N) = replicate (nat N) []" "totalNumItems (HashMap_new N) = 0"
  by (simp_all add: HashMap_new_def)

lemma concat_replicate_Nil [simp]: "concat (replicate n []) = []"
  by (induction n) auto

lemma numEntries_update:
  "i < length (slots m) \<Longrightarrow>
   numEntries (m\<lparr>slots := (slots m)[i := ch]\<rparr>) + length (slots m ! i) = numEntries m + length ch"
  using length_concat_update[of i "slots m" ch] by (simp add: numEntries_def)

lemma numEntries_totalNumItems_update [simp]:
  "numEntries (m\<lparr>totalNumItems := c\<rparr>) = numEntries m"
  by (simp add: numEntries_def)

lemma results_dom:
  fixes gh gh2 gh3 :: "'k \<Rightarrow> int \<Rightarrow> int" and m m2 t :: "('k, 'v) HashMap"
  shows
  "set_hm_remapTable_remapLoop_dom (Inl (gh, m, k, v)) \<Longrightarrow>
     (\<forall>m'. set_hm gh m k v = Some m' \<longrightarrow>
        slot_rank (length (slots m')) \<le> slot_rank (length (slots m)))"
  "set_hm_remapTable_remapLoop_dom (Inr (Inl (gh2, m2, N))) \<Longrightarrow>
     (\<forall>m'. remapTable gh2 m2 N = Some m' \<longrightarrow>
        slot_rank (length (slots m')) \<le> slot_rank (nat N))"
  "set_hm_remapTable_remapLoop_dom (Inr (Inr (gh3, es, t))) \<Longrightarrow>
     (\<forall>t'. remapLoop gh3 es t = Some t' \<longrightarrow>
        slot_rank (length (slots t')) \<le> slot_rank (length (slots t)))"
proof (induction gh m k v and gh2 m2 N and gh3 es t rule: set_hm_remapTable_remapLoop.pinduct)
  case (1 gh m newKey newValue)
  show ?case
  proof (intro allI impI)
    fix m'
    assume r: "set_hm gh m newKey newValue = Some m'"
    from r obtain h where h: "generateHashFor gh m newKey = Some h"
      by (auto simp: set_hm.psimps[OF 1(1)] split: option.splits)
    note hl = generateHashFor_less[OF h]
    show "slot_rank (length (slots m')) \<le> slot_rank (length (slots m))"
    proof (cases "set_chain newKey newValue (slots m ! nat h)")
      case (Some ch)
      with r h have m': "m' = m\<lparr>slots := (slots m)[nat h := ch]\<rparr>"
        by (simp add: set_hm.psimps[OF 1(1)])
      then show ?thesis by simp
    next
      case None
      define m1 where "m1 = m\<lparr>slots := (slots m)[nat h := (newKey, newValue) # slots m ! nat h],
                              totalNumItems := totalNumItems m + 1\<rparr>"
      have l1: "length (slots m1) = length (slots m)" by (simp add: m1_def)
      show ?thesis
      proof (cases "totalNumItems m1 > int32 (getNumSlots m1 * 3) sdiv 2")
        case True
        with r h None have rr: "remapTable gh m1 (int32 (getNumSlots m1 * 2)) = Some m'"
          by (simp add: set_hm.psimps[OF 1(1)] m1_def Let_def)
        have "\<forall>m'. remapTable gh m1 (int32 (getNumSlots m1 * 2)) = Some m' \<longrightarrow>
           slot_rank (length (slots m')) \<le> slot_rank (nat (int32 (getNumSlots m1 * 2)))"
          by (rule 1(2)[OF h refl None _ True]) (simp add: m1_def)
        with rr have "slot_rank (length (slots m')) \<le> slot_rank (nat (int32 (getNumSlots m1 * 2)))"
          by blast
        also have "\<dots> < slot_rank (length (slots m))"
        proof -
          from hl have "0 < length (slots m)" by (cases "slots m") simp_all
          from slot_rank_double[OF this] l1 show ?thesis by (simp add: getNumSlots_def)
        qed
        finally show ?thesis by simp
      next
        case False
        with r h None have "m' = m1"
          by (simp add: set_hm.psimps[OF 1(1)] m1_def Let_def)
        then show ?thesis using l1 by simp
      qed
    qed
  qed
next
  case (2 gh m N)
  show ?case
  proof (intro allI impI)
    fix m'
    assume r: "remapTable gh m N = Some m'"
    then obtain nt where nt: "remapLoop gh (concat (rev (slots m))) (HashMap_new N) = Some nt"
      and m': "m' = fst (swapWith m nt)"
      by (auto simp: remapTable.psimps[OF 2(1)] split: option.splits)
    note ih = 2(2)[rule_format, OF nt]
    have "slots m' = slots nt" by (simp add: m' swapWith_def)
    with ih show "slot_rank (length (slots m')) \<le> slot_rank (nat N)" by simp
  qed
next
  case (3 gh newTable)
  then show ?case by (simp add: remapLoop.psimps)
next
  case (4 gh entry rest newTable)
  show ?case
  proof (intro allI impI)
    fix t'
    assume r: "remapLoop gh (entry # rest) newTable = Some t'"
    then obtain t1 where t1: "set_hm gh newTable (fst entry) (snd entry) = Some t1"
      and r2: "remapLoop gh rest t1 = Some t'"
      by (auto simp: remapLoop.psimps(2)[OF 4(1)] split: option.splits)
    from 4(2)[rule_format, OF t1] 4(3)[OF t1, rule_format, OF r2]
    show "slot_rank (length (slots t')) \<le> slot_rank (length (slots newTable))" by simp
  qed
qed

termination set_hm
proof (relation "inv_image (less_than <*lex*> less_than) call_measure", goal_cases)
  case 1
  then show ?case by (intro wf_inv_image wf_lex_prod wf_less_than)
next
  case (2 gh m newKey newValue h firstEntry m1)
  note hl = generateHashFor_less[OF 2(1)]
  have l1: "length (slots m1) = length (slots m)" by (simp add: 2)
  from hl have "0 < length (slots m)" by (cases "slots m") simp_all
  from slot_rank_double[OF this] l1 show ?case
    by (simp add: call_measure_def getNumSlots_def)
next
  case (3 gh m N)
  have "length (concat (rev (slots m))) = numEntries m"
    by (simp add: numEntries_def length_concat rev_map[symmetric])
  then show ?case
    by (simp add: call_measure_def)
next
  case (4 gh entry rest newTable)
  then show ?case
    by (simp add: call_measure_def)
next
  case (5 gh entry rest newTable t1)
  from results_dom(1)[OF 5(2), rule_format, OF 5(1)]
  show ?case
    by (auto simp: call_measure_def)
qed

text \<open>\<open>remove\<close> unlinks every entry of the key's chain that has the key.\<close>

fun remove_chain :: "'k \<Rightarrow> ('k \<times> 'v) list \<Rightarrow> int \<Rightarrow> ('k \<times> 'v) list \<times> int" where
  "remove_chain keyToRemove [] n = ([], n)"
| "remove_chain keyToRemove (entry # rest) n =
     (if fst entry = keyToRemove then remove_chain keyToRemove rest (n - 1)
      else (let (rest', n') = remove_chain keyToRemove rest n in (entry # rest', n')))"

definition remove_hm :: "('k \<Rightarrow> int \<Rightarrow> int) \<Rightarrow> ('k, 'v) HashMap \<Rightarrow> 'k \<Rightarrow> ('k, 'v) HashMap option" where
  "remove_hm gh m keyToRemove =
     (case generateHashFor gh m keyToRemove of
        None \<Rightarrow> None
      | Some hashIndex \<Rightarrow>
          (let (chain, n) = remove_chain keyToRemove (slots m ! nat hashIndex) (totalNumItems m)
           in Some (m\<lparr>slots := (slots m)[nat hashIndex := chain], totalNumItems := n\<rparr>)))"

text \<open>\<open>removeValue\<close> does the same by value, in every slot from the last to the first.\<close>

fun removeValue_chain :: "'v \<Rightarrow> ('k \<times> 'v) list \<Rightarrow> int \<Rightarrow> ('k \<times> 'v) list \<times> int" where
  "removeValue_chain valueToRemove [] n = ([], n)"
| "removeValue_chain valueToRemove (entry # rest) n =
     (if snd entry = valueToRemove then removeValue_chain valueToRemove rest (n - 1)
      else (let (rest', n') = removeValue_chain valueToRemove rest n in (entry # rest', n')))"

fun removeValue_slots :: "nat \<Rightarrow> 'v \<Rightarrow> ('k, 'v) HashMap \<Rightarrow> ('k, 'v) HashMap" where
  "removeValue_slots 0 valueToRemove m = m"
| "removeValue_slots (Suc i) valueToRemove m =
     (let (chain, n) = removeValue_chain valueToRemove (slots m ! i) (totalNumItems m)
      in removeValue_slots i valueToRemove (m\<lparr>slots := (slots m)[i := chain], totalNumItems := n\<rparr>))"

definition removeValue :: "('k, 'v) HashMap \<Rightarrow> 'v \<Rightarrow> ('k, 'v) HashMap" where
  "removeValue m valueToRemove = removeValue_slots (length (slots m)) valueToRemove m"

section \<open>Invariants, call sequences and reachable maps\<close>

text \<open>The entries of a map, slot by slot, and its keys.\<close>

definition entries :: "('k, 'v) HashMap \<Rightarrow> ('k \<times> 'v) list" where
  "entries m = concat (slots m)"

definition keys_of :: "('k, 'v) HashMap \<Rightarrow> 'k set" where
  "keys_of m = fst ` set (entries m)"

text \<open>
  The three invariants of the data model: every entry sits in the bucket that its key
  hashes to for the current slot count; no two entries share a key; the counter is the
  sum of the chain lengths.
\<close>

definition entry_in_own_bucket :: "('k \<Rightarrow> int \<Rightarrow> int) \<Rightarrow> ('k, 'v) HashMap \<Rightarrow> bool" where
  "entry_in_own_bucket gh m =
     list_all (\<lambda>(i, chain). list_all (\<lambda>e. gh (fst e) (getNumSlots m) = int i) chain)
       (enumerate 0 (slots m))"

definition keys_unique :: "('k, 'v) HashMap \<Rightarrow> bool" where
  "keys_unique m = distinct (map fst (entries m))"

definition count_is_sum :: "('k, 'v) HashMap \<Rightarrow> bool" where
  "count_is_sum m = (totalNumItems m = int (sum_list (map length (slots m))))"

definition hm_inv :: "('k \<Rightarrow> int \<Rightarrow> int) \<Rightarrow> ('k, 'v) HashMap \<Rightarrow> bool" where
  "hm_inv gh m = (entry_in_own_bucket gh m \<and> keys_unique m \<and> count_is_sum m)"

text \<open>
  The load bound that the growth check of \<open>set\<close> maintains: the counter is at most the
  threshold of the check, or zero where the threshold is negative.
\<close>

definition load_ok :: "('k, 'v) HashMap \<Rightarrow> bool" where
  "load_ok m = (totalNumItems m \<le> max 0 (int32 (getNumSlots m * 3) sdiv 2))"

text \<open>The hashing contract for a set of keys: a result in \<open>[0, upperLimit)\<close> for every positive limit.\<close>

definition hash_in_range :: "('k \<Rightarrow> int \<Rightarrow> int) \<Rightarrow> 'k set \<Rightarrow> bool" where
  "hash_in_range gh K = (\<forall>k\<in>K. \<forall>n. 0 < n \<longrightarrow> 0 \<le> gh k n \<and> gh k n < n)"

text \<open>A sequence of \<open>set\<close> calls, in order.\<close>

fun set_calls :: "('k \<Rightarrow> int \<Rightarrow> int) \<Rightarrow> ('k, 'v) HashMap \<Rightarrow> ('k \<times> 'v) list \<Rightarrow> ('k, 'v) HashMap option" where
  "set_calls gh m [] = Some m"
| "set_calls gh m (kv # kvs) =
     (case set_hm gh m (fst kv) (snd kv) of
        None \<Rightarrow> None
      | Some m' \<Rightarrow> set_calls gh m' kvs)"

text \<open>
  The slot count after \<open>j\<close> insertions of new keys into a map with \<open>c\<close> items and \<open>n\<close>
  slots, following the growth check of \<open>set\<close>.
\<close>

fun slots_after :: "int \<Rightarrow> int \<Rightarrow> nat \<Rightarrow> int" where
  "slots_after c n 0 = n"
| "slots_after c n (Suc j) =
     slots_after (c + 1) (if c + 1 > int32 (n * 3) sdiv 2 then int32 (n * 2) else n) j"

text \<open>
  The maps that the public operations produce from newly constructed ones. An operation
  whose hash assertion fails produces no map.
\<close>

inductive reachable :: "('k \<Rightarrow> int \<Rightarrow> int) \<Rightarrow> ('k, 'v) HashMap \<Rightarrow> bool"
  for gh :: "'k \<Rightarrow> int \<Rightarrow> int" where
  r_new: "reachable gh (HashMap_new numberOfSlots)"
| r_set: "reachable gh m \<Longrightarrow> set_hm gh m k v = Some m' \<Longrightarrow> reachable gh m'"
| r_remove: "reachable gh m \<Longrightarrow> remove_hm gh m k = Some m' \<Longrightarrow> reachable gh m'"
| r_removeValue: "reachable gh m \<Longrightarrow> reachable gh (removeValue m v)"
| r_clear: "reachable gh m \<Longrightarrow> reachable gh (clear_hm m)"
| r_remapTable: "reachable gh m \<Longrightarrow> remapTable gh m newNumberOfSlots = Some m' \<Longrightarrow> reachable gh m'"
| r_swapWith_this: "reachable gh a \<Longrightarrow> reachable gh b \<Longrightarrow> reachable gh (fst (swapWith a b))"
| r_swapWith_other: "reachable gh a \<Longrightarrow> reachable gh b \<Longrightarrow> reachable gh (snd (swapWith a b))"

section \<open>The invariants are kept and the contents are as set\<close>

lemma concat_update_split:
  assumes "i < length xs"
  shows "\<exists>A B. concat xs = A @ xs ! i @ B \<and> (\<forall>y. concat (xs[i := y]) = A @ y @ B)"
proof (intro exI conjI allI)
  have "concat xs = concat (take i xs @ xs ! i # drop (Suc i) xs)"
    by (rule arg_cong[where f = concat, OF id_take_nth_drop[OF assms]])
  also have "\<dots> = concat (take i xs) @ xs ! i @ concat (drop (Suc i) xs)"
    by simp
  finally show "concat xs = concat (take i xs) @ xs ! i @ concat (drop (Suc i) xs)" .
  fix y
  show "concat (xs[i := y]) = concat (take i xs) @ y @ concat (drop (Suc i) xs)"
    using upd_conv_take_nth_drop[OF assms, of y] by simp
qed

lemma all_enumerate_iff:
  "(\<forall>p\<in>set (enumerate 0 xs). P (fst p) (snd p)) \<longleftrightarrow> (\<forall>i<length xs. P i (xs ! i))"
proof (intro iffI allI impI ballI)
  fix i
  assume a: "\<forall>p\<in>set (enumerate 0 xs). P (fst p) (snd p)" and i: "i < length xs"
  from i have "(i, xs ! i) \<in> set (enumerate 0 xs)"
    by (simp add: in_set_enumerate_eq)
  from bspec[OF a this] show "P i (xs ! i)" by simp
next
  fix p
  assume a: "\<forall>i<length xs. P i (xs ! i)" and p: "p \<in> set (enumerate 0 xs)"
  from p have "fst p < length xs" "xs ! fst p = snd p"
    by (simp_all add: in_set_enumerate_eq)
  with a show "P (fst p) (snd p)" by metis
qed

lemma entry_in_own_bucket_iff:
  "entry_in_own_bucket gh m \<longleftrightarrow>
     (\<forall>i<length (slots m). \<forall>e\<in>set (slots m ! i). gh (fst e) (getNumSlots m) = int i)"
proof -
  have "entry_in_own_bucket gh m \<longleftrightarrow>
     (\<forall>p\<in>set (enumerate 0 (slots m)). \<forall>e\<in>set (snd p). gh (fst e) (getNumSlots m) = int (fst p))"
    unfolding entry_in_own_bucket_def list_all_iff by (simp add: case_prod_beta)
  then show ?thesis
    unfolding all_enumerate_iff[where P = "\<lambda>i ch. \<forall>e\<in>set ch. gh (fst e) (getNumSlots m) = int i"] .
qed

lemma bucketD:
  "entry_in_own_bucket gh m \<Longrightarrow> i < length (slots m) \<Longrightarrow> e \<in> set (slots m ! i) \<Longrightarrow>
   gh (fst e) (getNumSlots m) = int i"
  unfolding entry_in_own_bucket_iff by blast

lemma find_chain_map_of: "find_chain k ch = map_of ch k"
  by (induction ch) auto

lemma set_chain_None_iff: "set_chain k v ch = None \<longleftrightarrow> k \<notin> fst ` set ch"
  by (induction ch) auto

lemma set_chain_keys: "set_chain k v ch = Some ch' \<Longrightarrow> map fst ch' = map fst ch"
  by (induction ch arbitrary: ch') (auto split: if_splits)

lemma set_chain_map_of: "set_chain k v ch = Some ch' \<Longrightarrow> map_of ch' = (map_of ch)(k \<mapsto> v)"
  by (induction ch arbitrary: ch') (auto split: if_splits simp: fun_upd_twist)

lemma count_is_sum_iff: "count_is_sum m \<longleftrightarrow> totalNumItems m = int (numEntries m)"
  by (simp add: count_is_sum_def numEntries_def length_concat)

lemma entry_bucket:
  assumes "entry_in_own_bucket gh m" "e \<in> set (entries m)"
  shows "\<exists>i<length (slots m). e \<in> set (slots m ! i) \<and> gh (fst e) (getNumSlots m) = int i"
proof -
  from assms(2) obtain ch where "ch \<in> set (slots m)" "e \<in> set ch"
    by (auto simp: entries_def)
  then obtain i where "i < length (slots m)" "slots m ! i = ch"
    by (auto simp: in_set_conv_nth)
  with assms(1) \<open>e \<in> set ch\<close> show ?thesis
    by (auto simp: entry_in_own_bucket_iff)
qed

lemma chain_subset_entries:
  assumes "i < length (slots m)"
  shows "set (slots m ! i) \<subseteq> set (entries m)"
proof
  fix e assume "e \<in> set (slots m ! i)"
  with assms have "slots m ! i \<in> set (slots m)" "e \<in> set (slots m ! i)" by simp_all
  then show "e \<in> set (entries m)" unfolding entries_def set_concat by blast
qed

lemma chain_keys_distinct:
  assumes "keys_unique m" "i < length (slots m)"
  shows "distinct (map fst (slots m ! i))"
proof -
  from concat_update_split[OF assms(2)] obtain A B where "concat (slots m) = A @ slots m ! i @ B"
    by blast
  with assms(1) show ?thesis by (simp add: keys_unique_def entries_def)
qed

lemma bucket_lookup:
  assumes "hm_inv gh m" "generateHashFor gh m k = Some h"
  shows "map_of (slots m ! nat h) k = map_of (entries m) k"
proof -
  note hl = generateHashFor_less[OF assms(2)]
  from assms(1) have ku: "keys_unique m" and eb: "entry_in_own_bucket gh m"
    by (simp_all add: hm_inv_def)
  have d: "distinct (map fst (entries m))" "distinct (map fst (slots m ! nat h))"
    using ku chain_keys_distinct[OF ku hl] by (simp_all add: keys_unique_def)
  have "(k, v) \<in> set (slots m ! nat h) \<longleftrightarrow> (k, v) \<in> set (entries m)" for v
  proof
    assume "(k, v) \<in> set (slots m ! nat h)"
    then show "(k, v) \<in> set (entries m)" using chain_subset_entries[OF hl] by blast
  next
    assume "(k, v) \<in> set (entries m)"
    from entry_bucket[OF eb this] obtain i where i: "i < length (slots m)"
      "(k, v) \<in> set (slots m ! i)" "gh k (getNumSlots m) = int i"
      by auto
    with generateHashFor_eq[OF assms(2)] have "nat h = i" by simp
    with i show "(k, v) \<in> set (slots m ! nat h)" by simp
  qed
  then have "map_of (slots m ! nat h) k = Some v \<longleftrightarrow> map_of (entries m) k = Some v" for v
    using d by simp
  then show ?thesis
    by (cases "map_of (entries m) k") (simp_all add: map_of_eq_None_iff[symmetric] del: map_of_eq_None_iff, (metis option.exhaust)?)
qed


lemma getNumSlots_update [simp]:
  "getNumSlots (m\<lparr>slots := (slots m)[i := ch]\<rparr>) = getNumSlots m"
  "getNumSlots (m\<lparr>totalNumItems := c\<rparr>) = getNumSlots m"
  by (simp_all add: getNumSlots_def)

lemma key_not_in_map:
  assumes "entry_in_own_bucket gh m" "generateHashFor gh m k = Some h"
    "set_chain k v (slots m ! nat h) = None"
  shows "k \<notin> keys_of m"
proof
  assume "k \<in> keys_of m"
  then obtain e where e: "e \<in> set (entries m)" "fst e = k" by (auto simp: keys_of_def)
  from entry_bucket[OF assms(1) e(1)] obtain i where i: "i < length (slots m)"
    "e \<in> set (slots m ! i)" "gh (fst e) (getNumSlots m) = int i" by auto
  with generateHashFor_eq[OF assms(2)] e(2) have "nat h = i" by simp
  with i e(2) have "k \<in> fst ` set (slots m ! nat h)" by force
  with assms(3) show False by (simp add: set_chain_None_iff)
qed

lemma overwrite_step:
  assumes inv: "hm_inv gh m" and h: "generateHashFor gh m k = Some h"
    and sc: "set_chain k v (slots m ! nat h) = Some ch"
  shows "hm_inv gh (m\<lparr>slots := (slots m)[nat h := ch]\<rparr>) \<and>
         map_of (entries (m\<lparr>slots := (slots m)[nat h := ch]\<rparr>)) = (map_of (entries m))(k \<mapsto> v)"
proof -
  let ?c = "slots m ! nat h"
  let ?m' = "m\<lparr>slots := (slots m)[nat h := ch]\<rparr>"
  note hl = generateHashFor_less[OF h]
  from inv have ku: "keys_unique m" and eb: "entry_in_own_bucket gh m" and cs: "count_is_sum m"
    by (simp_all add: hm_inv_def)
  from concat_update_split[OF hl] obtain A B where
    AB: "concat (slots m) = A @ ?c @ B" "\<And>y. concat ((slots m)[nat h := y]) = A @ y @ B"
    by blast
  have em: "entries m = A @ ?c @ B" and em': "entries ?m' = A @ ch @ B"
    using AB by (simp_all add: entries_def)
  note keys = set_chain_keys[OF sc]
  have kin: "k \<in> fst ` set ?c"
    using sc set_chain_None_iff[of k v ?c] by auto
  have ku': "keys_unique ?m'"
    using ku keys by (simp add: keys_unique_def em em')
  have "length ch = length ?c" by (rule set_chain_length[OF sc])
  then have cs': "count_is_sum ?m'"
    using cs numEntries_update[OF hl, of ch] by (simp add: count_is_sum_iff)
  have eb': "entry_in_own_bucket gh ?m'"
    unfolding entry_in_own_bucket_iff
  proof (intro allI impI ballI)
    fix i e
    assume i: "i < length (slots ?m')" and e: "e \<in> set (slots ?m' ! i)"
    show "gh (fst e) (getNumSlots ?m') = int i"
    proof (cases "i = nat h")
      case True
      with e hl have "fst e \<in> set (map fst ch)" by simp
      with keys obtain e' where e': "e' \<in> set ?c" "fst e' = fst e" by auto
      from bucketD[OF eb hl e'(1)] e'(2) True show ?thesis by simp
    next
      case False
      with e i have "i < length (slots m)" "e \<in> set (slots m ! i)" by simp_all
      from bucketD[OF eb this] show ?thesis by simp
    qed
  qed
  have nA: "map_of A k = None"
    using ku kin by (auto simp: keys_unique_def em map_of_eq_None_iff)
  have "map_of (entries ?m') = (map_of (entries m))(k \<mapsto> v)"
  proof
    fix x
    show "map_of (entries ?m') x = ((map_of (entries m))(k \<mapsto> v)) x"
      using nA set_chain_map_of[OF sc]
      by (cases "x = k") (simp_all add: em em' map_add_def split: option.splits)
  qed
  with ku' cs' eb' show ?thesis by (simp add: hm_inv_def)
qed

lemma insert_step:
  assumes inv: "hm_inv gh m" and h: "generateHashFor gh m k = Some h"
    and sc: "set_chain k v (slots m ! nat h) = None"
  shows "hm_inv gh (m\<lparr>slots := (slots m)[nat h := (k, v) # slots m ! nat h],
                     totalNumItems := totalNumItems m + 1\<rparr>) \<and>
         map_of (entries (m\<lparr>slots := (slots m)[nat h := (k, v) # slots m ! nat h],
                     totalNumItems := totalNumItems m + 1\<rparr>)) = (map_of (entries m))(k \<mapsto> v)"
proof -
  let ?c = "slots m ! nat h"
  let ?m' = "m\<lparr>slots := (slots m)[nat h := (k, v) # slots m ! nat h],
                totalNumItems := totalNumItems m + 1\<rparr>"
  note hl = generateHashFor_less[OF h]
  from inv have ku: "keys_unique m" and eb: "entry_in_own_bucket gh m" and cs: "count_is_sum m"
    by (simp_all add: hm_inv_def)
  from concat_update_split[OF hl] obtain A B where
    AB: "concat (slots m) = A @ ?c @ B" "\<And>y. concat ((slots m)[nat h := y]) = A @ y @ B"
    by blast
  have em: "entries m = A @ ?c @ B" and em': "entries ?m' = A @ ((k, v) # ?c) @ B"
    using AB by (simp_all add: entries_def)
  have knew: "k \<notin> fst ` set (entries m)"
    using key_not_in_map[OF eb h sc] by (simp add: keys_of_def)
  have ku': "keys_unique ?m'"
    using ku knew by (auto simp: keys_unique_def em em')
  have cs': "count_is_sum ?m'"
    using cs numEntries_update[OF hl, of "(k, v) # ?c"] by (simp add: count_is_sum_iff)
  have eb': "entry_in_own_bucket gh ?m'"
    unfolding entry_in_own_bucket_iff
  proof (intro allI impI ballI)
    fix i e
    assume i: "i < length (slots ?m')" and e: "e \<in> set (slots ?m' ! i)"
    show "gh (fst e) (getNumSlots ?m') = int i"
    proof (cases "i = nat h")
      case True
      with e hl have "e = (k, v) \<or> e \<in> set ?c" by simp
      then show ?thesis
      proof
        assume "e = (k, v)"
        with True generateHashFor_eq[OF h] generateHashFor_nonneg[OF h] show ?thesis
          by (simp add: getNumSlots_def)
      next
        assume "e \<in> set ?c"
        from bucketD[OF eb hl this] True show ?thesis by (simp add: getNumSlots_def)
      qed
    next
      case False
      with e i have "i < length (slots m)" "e \<in> set (slots m ! i)" by simp_all
      from bucketD[OF eb this] show ?thesis by (simp add: getNumSlots_def)
    qed
  qed
  have nA: "map_of A k = None"
    using knew by (auto simp: em map_of_eq_None_iff)
  have "map_of (entries ?m') = (map_of (entries m))(k \<mapsto> v)"
  proof
    fix x
    show "map_of (entries ?m') x = ((map_of (entries m))(k \<mapsto> v)) x"
      using nA
      by (cases "x = k") (simp_all add: em em' map_add_def split: option.splits)
  qed
  with ku' cs' eb' show ?thesis by (simp add: hm_inv_def)
qed


lemma swapWith_fst_snd [simp]:
  fixes a b :: "('k, 'v) HashMap"
  shows "fst (swapWith a b) = b" "snd (swapWith a b) = a"
  by (simp_all add: swapWith_def)

lemma remapTable_eq:
  "remapTable gh m N = remapLoop gh (concat (rev (slots m))) (HashMap_new N)"
  by (simp split: option.splits)


lemma keys_of_dom: "keys_of m = dom (map_of (entries m))"
  by (simp add: keys_of_def dom_map_of_conv_image_fst)

lemma HashMap_new_inv [simp]:
  "hm_inv gh (HashMap_new N)" "entries (HashMap_new N) = []" "load_ok (HashMap_new N)"
  "keys_of (HashMap_new N) = {}" "getNumSlots (HashMap_new N) = int (nat N)"
  by (simp_all add: hm_inv_def entry_in_own_bucket_iff keys_unique_def count_is_sum_iff
      numEntries_def entries_def load_ok_def getNumSlots_def keys_of_def)

lemma distinct_concat_rev: "distinct (concat (rev xss)) \<longleftrightarrow> distinct (concat xss)"
  by (induction xss) auto

lemma map_of_rev_concat_rev:
  assumes "distinct (map fst (concat xss))"
  shows "map_of (rev (concat (rev xss))) = map_of (concat xss)"
proof -
  have "map fst (concat (rev xss)) = concat (rev (map (map fst) xss))"
    by (simp add: map_concat rev_map)
  moreover have "distinct (concat (rev (map (map fst) xss)))"
    using assms by (simp add: distinct_concat_rev map_concat)
  ultimately have "distinct (map fst (rev (concat (rev xss))))"
    by (simp add: rev_map[symmetric] del: rev_concat)
  moreover have "set (rev (concat (rev xss))) = set (concat xss)" by auto
  ultimately show ?thesis using assms by (simp only: map_of_inject_set)
qed


lemma hash_in_range_Some:
  assumes "hash_in_range gh K" "k \<in> K" "0 < length (slots m)"
  shows "generateHashFor gh m k = Some (gh k (getNumSlots m))"
  using assms by (simp add: hash_in_range_def generateHashFor_def getNumSlots_def Let_def)

lemma hash_in_range_mono: "hash_in_range gh K \<Longrightarrow> K' \<subseteq> K \<Longrightarrow> hash_in_range gh K'"
  by (auto simp: hash_in_range_def)

lemma sdiv_2_nonneg: "0 \<le> x \<Longrightarrow> x sdiv 2 = x div (2 :: int)"
  by (simp add: signed_divide_int_def sgn_if)

lemma sdiv_2_neg: "x < 0 \<Longrightarrow> x sdiv (2 :: int) \<le> 0"
  by (simp add: signed_divide_int_def sgn_if)

lemma threshold_plain:
  assumes "0 \<le> n" "n \<le> 715827882"
  shows "int32 (n * 3) sdiv 2 = (n * 3) div 2"
proof -
  from assms have "int32 (n * 3) = n * 3" by (intro int32_id) simp_all
  with assms(1) show ?thesis by (simp add: sdiv_2_nonneg)
qed

lemma threshold_small: "int32 x sdiv 2 < 1073741824"
proof (cases "0 \<le> int32 x")
  case True
  with int32_range(2)[of x] show ?thesis by (simp add: sdiv_2_nonneg)
next
  case False
  then have "int32 x sdiv 2 \<le> 0" by (intro sdiv_2_neg) simp
  then show ?thesis by simp
qed

lemma threshold_le:
  assumes "0 \<le> n"
  shows "int32 (n * 3) sdiv 2 \<le> (n * 3) div 2"
proof (cases "0 \<le> int32 (n * 3)")
  case True
  from int32_shift[of "n * 3"] obtain k where k: "int32 (n * 3) = n * 3 + k * 4294967296" by auto
  have "k \<le> 0"
  proof (rule ccontr)
    assume "\<not> k \<le> 0"
    then have "1 \<le> k" by simp
    then have "4294967296 \<le> k * 4294967296" by simp
    with k assms int32_range(2)[of "n * 3"] show False by simp
  qed
  then have "k * 4294967296 \<le> 0" by (simp add: mult_le_0_iff)
  with k have "int32 (n * 3) \<le> n * 3" by simp
  then have "int32 (n * 3) div 2 \<le> (n * 3) div 2" by (rule zdiv_mono1) simp
  with True show ?thesis by (simp add: sdiv_2_nonneg)
next
  case False
  then have "int32 (n * 3) sdiv 2 \<le> 0" by (intro sdiv_2_neg) simp
  moreover from assms have "0 \<le> (n * 3) div 2" by simp
  ultimately show ?thesis by simp
qed

lemma load_ok_plain: "load_ok m \<Longrightarrow> totalNumItems m \<le> (getNumSlots m * 3) div 2"
  using threshold_le[of "getNumSlots m"] by (simp add: load_ok_def getNumSlots_def max_def split: if_splits)

lemma load_ok_small: "load_ok m \<Longrightarrow> totalNumItems m < 1073741824"
  using threshold_small[of "getNumSlots m * 3"] by (simp add: load_ok_def max_def split: if_splits)

text \<open>
  What a returning call leaves: the invariants, the contents as set, and the load bound.
  No assumption on the hash function or on the sizes is needed here, since a call that
  meets an out-of-range hash does not return.
\<close>

lemma set_remap_correct:
  fixes gh gh2 gh3 :: "'k \<Rightarrow> int \<Rightarrow> int" and m m2 t :: "('k, 'v) HashMap"
  shows
  "hm_inv gh m \<longrightarrow>
     (\<forall>m'. set_hm gh m k v = Some m' \<longrightarrow>
        hm_inv gh m' \<and> map_of (entries m') = (map_of (entries m))(k \<mapsto> v) \<and>
        (load_ok m \<longrightarrow> load_ok m'))"
  "(\<forall>m'. remapTable gh2 m2 N = Some m' \<longrightarrow>
        hm_inv gh2 m' \<and> map_of (entries m') = map_of (rev (concat (rev (slots m2)))) \<and>
        load_ok m')"
  "hm_inv gh3 t \<longrightarrow>
     (\<forall>t'. remapLoop gh3 es t = Some t' \<longrightarrow>
        hm_inv gh3 t' \<and> map_of (entries t') = map_of (entries t) ++ map_of (rev es) \<and>
        (load_ok t \<longrightarrow> load_ok t'))"
proof (induction gh m k v and gh2 m2 N and gh3 es t rule: set_hm_remapTable_remapLoop.induct)
  case (1 gh m newKey newValue)
  show ?case
  proof (intro impI allI)
    fix m'
    assume inv: "hm_inv gh m" and r: "set_hm gh m newKey newValue = Some m'"
    from r obtain h where h: "generateHashFor gh m newKey = Some h"
      by (auto split: option.splits)
    note hl = generateHashFor_less[OF h]
    show "hm_inv gh m' \<and> map_of (entries m') = (map_of (entries m))(newKey \<mapsto> newValue) \<and>
        (load_ok m \<longrightarrow> load_ok m')"
    proof (cases "set_chain newKey newValue (slots m ! nat h)")
      case (Some ch)
      with r h have m': "m' = m\<lparr>slots := (slots m)[nat h := ch]\<rparr>" by simp
      from overwrite_step[OF inv h Some] show ?thesis
        by (simp add: m' load_ok_def)
    next
      case None
      define m1 where "m1 = m\<lparr>slots := (slots m)[nat h := (newKey, newValue) # slots m ! nat h],
                              totalNumItems := totalNumItems m + 1\<rparr>"
      from insert_step[OF inv h None]
      have i1: "hm_inv gh m1" "map_of (entries m1) = (map_of (entries m))(newKey \<mapsto> newValue)"
        by (simp_all add: m1_def)
      show ?thesis
      proof (cases "totalNumItems m1 > int32 (getNumSlots m1 * 3) sdiv 2")
        case True
        with r h None have rr: "remapTable gh m1 (int32 (getNumSlots m1 * 2)) = Some m'"
          by (simp add: m1_def Let_def)
        have ih: "\<forall>m'. remapTable gh m1 (int32 (getNumSlots m1 * 2)) = Some m' \<longrightarrow>
            hm_inv gh m' \<and> map_of (entries m') = map_of (rev (concat (rev (slots m1)))) \<and>
            load_ok m'"
          by (rule 1[OF h refl None _ True]) (simp add: m1_def)
        from ih rr have p: "hm_inv gh m'"
          "map_of (entries m') = map_of (rev (concat (rev (slots m1))))" "load_ok m'"
          by blast+
        from i1(1) have "distinct (map fst (concat (slots m1)))"
          by (simp add: hm_inv_def keys_unique_def entries_def)
        from map_of_rev_concat_rev[OF this] p(2) i1(2)
        have "map_of (entries m') = (map_of (entries m))(newKey \<mapsto> newValue)"
          by (simp add: entries_def)
        with p(1,3) show ?thesis by simp
      next
        case False
        with r h None have m': "m' = m1" by (simp add: m1_def Let_def)
        from False have "load_ok m1" by (simp add: load_ok_def)
        with i1 m' show ?thesis by simp
      qed
    qed
  qed
next
  case (2 gh m N)
  have inv0: "hm_inv gh (HashMap_new N :: ('k, 'v) HashMap)" by simp
  note ih = 2[rule_format, OF inv0]
  show ?case
  proof (intro allI impI)
    fix m'
    assume "remapTable gh m N = Some m'"
    then have r: "remapLoop gh (concat (rev (slots m))) (HashMap_new N) = Some m'"
      by (simp only: remapTable_eq)
    from ih[OF r] show "hm_inv gh m' \<and>
        map_of (entries m') = map_of (rev (concat (rev (slots m)))) \<and> load_ok m'"
      by simp
  qed
next
  case (3 gh newTable)
  show ?case by simp
next
  case (4 gh entry rest newTable)
  show ?case
  proof (intro impI allI)
    fix t'
    assume inv: "hm_inv gh newTable" and r: "remapLoop gh (entry # rest) newTable = Some t'"
    then obtain t1 where t1: "set_hm gh newTable (fst entry) (snd entry) = Some t1"
      and r2: "remapLoop gh rest t1 = Some t'"
      by (auto split: option.splits)
    from 4(1) inv t1 have a: "hm_inv gh t1"
      "map_of (entries t1) = (map_of (entries newTable))(fst entry \<mapsto> snd entry)"
      "load_ok newTable \<longrightarrow> load_ok t1"
      by blast+
    from 4(2)[OF t1] a(1) r2 have b: "hm_inv gh t'"
      "map_of (entries t') = map_of (entries t1) ++ map_of (rev rest)"
      "load_ok t1 \<longrightarrow> load_ok t'"
      by blast+
    have "map_of (entries t') = map_of (entries newTable) ++ map_of (rev (entry # rest))"
      by (cases entry) (simp add: b(2) a(2) map_add_assoc[symmetric])
    with a(3) b(1,3) show "hm_inv gh t' \<and>
        map_of (entries t') = map_of (entries newTable) ++ map_of (rev (entry # rest)) \<and>
        (load_ok newTable \<longrightarrow> load_ok t')"
      by simp
  qed
qed

section \<open>The default integer hash and its range\<close>

lemma sint_INT_MIN: "sint INT_MIN = - 2147483648"
  by (simp add: INT_MIN_def)

lemma sint_eq_min_iff: "sint (x :: int32) = - 2147483648 \<longleftrightarrow> x = INT_MIN"
proof
  assume "sint x = - 2147483648"
  then have "word_of_int (sint x) = (word_of_int (- 2147483648) :: int32)" by simp
  then show "x = INT_MIN" by (simp add: INT_MIN_def)
next
  assume "x = INT_MIN" then show "sint x = - 2147483648" by (simp add: sint_INT_MIN)
qed

lemma sint_std_abs:
  assumes "key \<noteq> INT_MIN"
  shows "sint (std_abs key) = \<bar>sint key\<bar>"
proof (cases "sint key < 0")
  case True
  have "- (2 ^ 31) \<le> sint key" using sint_ge[of key] by simp
  with assms have lo: "- 2147483648 < sint key" using sint_eq_min_iff[of key] by simp
  have "sint (- key) = signed_take_bit 31 (- sint key)"
    by (simp add: sint_word_ariths)
  also have "\<dots> = - sint key"
    using lo True by (simp add: signed_take_bit_int_eq_self)
  finally show ?thesis using True by (simp add: std_abs_def)
next
  case False
  then show ?thesis by (simp add: std_abs_def)
qed

lemma generateHash_in_range:
  assumes "key \<noteq> INT_MIN" "0 < upperLimit"
  shows "0 \<le> generateHash key upperLimit \<and> generateHash key upperLimit < upperLimit"
proof -
  have "generateHash key upperLimit = \<bar>sint key\<bar> mod upperLimit"
    using assms(2) by (simp add: generateHash_def sint_std_abs[OF assms(1)] signed_modulo_int_def sgn_if)
  with assms(2) show ?thesis by simp
qed

lemma generateHash_INT_MIN:
  assumes "0 < upperLimit"
  shows "generateHash INT_MIN upperLimit = - (2147483648 mod upperLimit)"
  using assms by (simp add: generateHash_def std_abs_def INT_MIN_def signed_modulo_int_def)

section \<open>Removal, clearing and the reachable maps\<close>

declare set_hm.simps [simp del] remapTable.simps [simp del]

lemma remove_chain_filter:
  "remove_chain k ch n =
     (filter (\<lambda>e. fst e \<noteq> k) ch, n - int (length (filter (\<lambda>e. fst e = k) ch)))"
  by (induction ch arbitrary: n) auto

lemma removeValue_chain_filter:
  "removeValue_chain v ch n =
     (filter (\<lambda>e. snd e \<noteq> v) ch, n - int (length (filter (\<lambda>e. snd e = v) ch)))"
  by (induction ch arbitrary: n) auto

lemma filter_step:
  fixes P :: "'k \<times> 'v \<Rightarrow> bool"
  assumes inv: "hm_inv gh m" and i: "i < length (slots m)"
  defines "m' \<equiv> m\<lparr>slots := (slots m)[i := filter P (slots m ! i)],
                totalNumItems := totalNumItems m - int (length (filter (\<lambda>e. \<not> P e) (slots m ! i)))\<rparr>"
  shows "hm_inv gh m'" and "load_ok m \<Longrightarrow> load_ok m'"
proof -
  let ?c = "slots m ! i"
  from inv have ku: "keys_unique m" and eb: "entry_in_own_bucket gh m" and cs: "count_is_sum m"
    by (simp_all add: hm_inv_def)
  from concat_update_split[OF i] obtain A B where
    AB: "concat (slots m) = A @ ?c @ B" "\<And>y. concat ((slots m)[i := y]) = A @ y @ B"
    by blast
  have em: "entries m = A @ ?c @ B" and em': "entries m' = A @ filter P ?c @ B"
    using AB by (simp_all add: entries_def m'_def)
  have ku': "keys_unique m'"
    using ku by (auto simp: keys_unique_def em em' distinct_map_filter)
  have "length (filter P ?c) + length (filter (\<lambda>e. \<not> P e) ?c) = length ?c"
    by (rule sum_length_filter_compl)
  then have cs': "count_is_sum m'"
    using cs numEntries_update[OF i, of "filter P ?c"]
    by (simp add: count_is_sum_iff m'_def)
  have eb': "entry_in_own_bucket gh m'"
    unfolding entry_in_own_bucket_iff
  proof (intro allI impI ballI)
    fix j e
    assume j: "j < length (slots m')" and e: "e \<in> set (slots m' ! j)"
    then have "j < length (slots m)" "e \<in> set (slots m ! j)"
      using i by (auto simp: m'_def nth_list_update split: if_splits)
    from bucketD[OF eb this] show "gh (fst e) (getNumSlots m') = int j"
      by (simp add: m'_def getNumSlots_def)
  qed
  from ku' cs' eb' show "hm_inv gh m'" by (simp add: hm_inv_def)
  show "load_ok m \<Longrightarrow> load_ok m'"
    by (simp add: load_ok_def m'_def getNumSlots_def)
qed

lemma remove_hm_inv:
  assumes "hm_inv gh m" "remove_hm gh m k = Some m'"
  shows "hm_inv gh m'" and "load_ok m \<Longrightarrow> load_ok m'"
proof -
  from assms(2) obtain h where h: "generateHashFor gh m k = Some h"
    by (auto simp: remove_hm_def split: option.splits)
  note hl = generateHashFor_less[OF h]
  from assms(2) h have m': "m' = m\<lparr>slots := (slots m)[nat h := filter (\<lambda>e. fst e \<noteq> k) (slots m ! nat h)],
      totalNumItems := totalNumItems m - int (length (filter (\<lambda>e. \<not> fst e \<noteq> k) (slots m ! nat h)))\<rparr>"
    by (simp add: remove_hm_def remove_chain_filter)
  show "hm_inv gh m'" unfolding m' by (rule filter_step(1)[OF assms(1) hl])
  show "load_ok m \<Longrightarrow> load_ok m'" unfolding m' by (rule filter_step(2)[OF assms(1) hl])
qed

lemma removeValue_slots_inv:
  assumes "hm_inv gh m" "i \<le> length (slots m)"
  shows "hm_inv gh (removeValue_slots i v m) \<and> (load_ok m \<longrightarrow> load_ok (removeValue_slots i v m))"
  using assms
proof (induction i arbitrary: m)
  case 0
  then show ?case by simp
next
  case (Suc i)
  let ?m1 = "m\<lparr>slots := (slots m)[i := filter (\<lambda>e. snd e \<noteq> v) (slots m ! i)],
      totalNumItems := totalNumItems m - int (length (filter (\<lambda>e. \<not> snd e \<noteq> v) (slots m ! i)))\<rparr>"
  from Suc.prems have i: "i < length (slots m)" by simp
  have r: "removeValue_slots (Suc i) v m = removeValue_slots i v ?m1"
    by (simp add: removeValue_chain_filter)
  have "hm_inv gh ?m1" by (rule filter_step(1)[OF Suc.prems(1) i])
  moreover have "i \<le> length (slots ?m1)" using i by simp
  ultimately have "hm_inv gh (removeValue_slots i v ?m1) \<and>
     (load_ok ?m1 \<longrightarrow> load_ok (removeValue_slots i v ?m1))"
    by (rule Suc.IH)
  with filter_step(2)[OF Suc.prems(1) i, of "\<lambda>e. snd e \<noteq> v"] show ?case
    unfolding r by blast
qed

lemma removeValue_inv:
  "hm_inv gh m \<Longrightarrow> hm_inv gh (removeValue m v)"
  "hm_inv gh m \<Longrightarrow> load_ok m \<Longrightarrow> load_ok (removeValue m v)"
  using removeValue_slots_inv[of gh m "length (slots m)" v] by (simp_all add: removeValue_def)

lemma clear_slots_eq: "i \<le> length s \<Longrightarrow> clear_slots i s = replicate i [] @ drop i s"
proof (induction i arbitrary: s)
  case 0
  then show ?case by simp
next
  case (Suc i)
  then have i: "i < length s" by simp
  have "clear_slots (Suc i) s = replicate i [] @ drop i (s[i := []])"
    using Suc.IH[of "s[i := []]"] i by simp
  also have "drop i (s[i := []]) = [] # drop (Suc i) s"
    using i by (simp add: upd_conv_take_nth_drop)
  finally show ?case by (simp add: replicate_app_Cons_same)
qed

lemma clear_hm_eq: "slots (clear_hm m) = replicate (length (slots m)) []" "totalNumItems (clear_hm m) = 0"
  by (simp_all add: clear_hm_def clear_slots_eq)

lemma clear_hm_inv: "hm_inv gh (clear_hm m)" "load_ok (clear_hm m)"
  by (simp_all add: hm_inv_def entry_in_own_bucket_iff keys_unique_def count_is_sum_iff
      numEntries_def entries_def load_ok_def getNumSlots_def clear_hm_eq)

lemma reachable_inv: "reachable gh m \<Longrightarrow> hm_inv gh m \<and> load_ok m"
proof (induction rule: reachable.induct)
  case (r_new numberOfSlots)
  show ?case by simp
next
  case (r_set m k v m')
  with set_remap_correct(1)[of gh m k v] show ?case by blast
next
  case (r_remove m k m')
  with remove_hm_inv[of gh m k m'] show ?case by blast
next
  case (r_removeValue m v)
  with removeValue_inv[of gh m v] show ?case by blast
next
  case (r_clear m)
  show ?case by (simp add: clear_hm_inv)
next
  case (r_remapTable m newNumberOfSlots m')
  with set_remap_correct(2)[of gh m newNumberOfSlots] show ?case by blast
next
  case (r_swapWith_this a b)
  then show ?case by simp
next
  case (r_swapWith_other a b)
  then show ?case by simp
qed

text \<open>
  The counter of a reachable map is below \<open>2^30\<close>, so the increment in \<open>set\<close> never leaves
  the range of a 32-bit \<open>int\<close>.
\<close>

lemma reachable_count_small: "reachable gh m \<Longrightarrow> totalNumItems m < 1073741824"
  using reachable_inv[of gh m] load_ok_small[of m] by simp

section \<open>Swapping two maps\<close>

text \<open>
  Claim C7. After \<open>A.swapWith (B)\<close>, map A reports what B reported before and map B what
  A reported before: the same \<open>size()\<close>, the same \<open>getNumSlots()\<close> and the same result of
  \<open>operator[]\<close> and of \<open>contains\<close> for every key.
\<close>

theorem swapWith_exchanges:
  "size_hm (fst (swapWith a b)) = size_hm b \<and> size_hm (snd (swapWith a b)) = size_hm a \<and>
   getNumSlots (fst (swapWith a b)) = getNumSlots b \<and>
   getNumSlots (snd (swapWith a b)) = getNumSlots a \<and>
   lookup_hm gh dflt (fst (swapWith a b)) k = lookup_hm gh dflt b k \<and>
   lookup_hm gh dflt (snd (swapWith a b)) k = lookup_hm gh dflt a k \<and>
   contains gh (fst (swapWith a b)) k = contains gh b k \<and>
   contains gh (snd (swapWith a b)) k = contains gh a k"
  by (simp add: swapWith_def size_hm_def getNumSlots_def lookup_hm_def contains_def
      generateHashFor_def Let_def split: option.splits)

section \<open>Sizes and lookups of maps that satisfy the invariants\<close>

lemma hash_in_range_generateHash: "INT_MIN \<notin> K \<Longrightarrow> hash_in_range generateHash K"
proof (unfold hash_in_range_def, intro ballI allI impI)
  fix k n
  assume "INT_MIN \<notin> K" "k \<in> K" "(0 :: int) < n"
  then have "k \<noteq> INT_MIN" "0 < n" by auto
  then show "0 \<le> generateHash k n \<and> generateHash k n < n" by (rule generateHash_in_range)
qed

lemma size_card_keys:
  assumes "hm_inv gh m"
  shows "size_hm m = int (card (keys_of m))"
proof -
  from assms have "distinct (map fst (entries m))" "totalNumItems m = int (length (entries m))"
    by (simp_all add: hm_inv_def keys_unique_def count_is_sum_iff numEntries_def entries_def)
  moreover have "card (keys_of m) = card (set (map fst (entries m)))"
    by (simp add: keys_of_def)
  ultimately show ?thesis
    using distinct_card[of "map fst (entries m)"] by (simp add: size_hm_def)
qed

lemma lookup_map_of:
  assumes "hm_inv gh m" "generateHashFor gh m k = Some h"
  shows "lookup_hm gh dflt m k = Some (case map_of (entries m) k of None \<Rightarrow> dflt | Some v \<Rightarrow> v)"
    and "contains gh m k = Some (k \<in> keys_of m)"
  using bucket_lookup[OF assms] assms(2)
  by (auto simp: lookup_hm_def contains_def find_chain_map_of keys_of_dom split: option.splits)

lemma map_of_rev_last:
  assumes "i < length kvs" "\<forall>j. i < j \<and> j < length kvs \<longrightarrow> fst (kvs ! j) \<noteq> fst (kvs ! i)"
  shows "map_of (rev kvs) (fst (kvs ! i)) = Some (snd (kvs ! i))"
  using assms
proof (induction kvs rule: rev_induct)
  case Nil
  then show ?case by simp
next
  case (snoc x xs)
  show ?case
  proof (cases "i = length xs")
    case True
    then show ?thesis by simp
  next
    case False
    with snoc.prems(1) have i: "i < length xs" by simp
    from snoc.prems(2)[rule_format, of "length xs"] i
    have ne: "fst x \<noteq> fst (xs ! i)" by (simp add: nth_append)
    have "\<forall>j. i < j \<and> j < length xs \<longrightarrow> fst (xs ! j) \<noteq> fst (xs ! i)"
    proof (intro allI impI)
      fix j assume j: "i < j \<and> j < length xs"
      with snoc.prems(2)[rule_format, of j] i show "fst (xs ! j) \<noteq> fst (xs ! i)"
        by (simp add: nth_append)
    qed
    from snoc.IH[OF i this] ne i show ?thesis by (simp add: nth_append)
  qed
qed

section \<open>The range of the default integer hash\<close>

text \<open>
  Claim C10, as amended. For every upper limit above zero, the default integer hash
  \<open>abs (k) % upperLimit\<close> of a key other than the minimum int lies in \<open>[0, upperLimit)\<close>,
  and \<open>generateHashFor\<close> accepts it. For the minimum int the negation in \<open>abs\<close> wraps and
  the hash is \<open>- (2^31 mod upperLimit)\<close>: out of range exactly when the upper limit does
  not divide \<open>2^31\<close>, and zero, hence in range, when it does.
\<close>

theorem generateHash_range:
  assumes "0 < getNumSlots m"
  shows "(key \<noteq> INT_MIN \<longrightarrow>
            0 \<le> generateHash key (getNumSlots m) \<and> generateHash key (getNumSlots m) < getNumSlots m \<and>
            generateHashFor generateHash m key = Some (generateHash key (getNumSlots m))) \<and>
         generateHash INT_MIN (getNumSlots m) = - (2147483648 mod getNumSlots m) \<and>
         (generateHashFor generateHash m INT_MIN = None \<longleftrightarrow> \<not> getNumSlots m dvd 2147483648)"
proof -
  let ?n = "getNumSlots m"
  have a: "key \<noteq> INT_MIN \<longrightarrow> 0 \<le> generateHash key ?n \<and> generateHash key ?n < ?n \<and>
            generateHashFor generateHash m key = Some (generateHash key ?n)"
    using generateHash_in_range[OF _ assms, of key] by (simp add: generateHashFor_def Let_def)
  note b = generateHash_INT_MIN[OF assms]
  have "0 \<le> 2147483648 mod ?n" "2147483648 mod ?n < ?n" using assms by simp_all
  then have "generateHashFor generateHash m INT_MIN = None \<longleftrightarrow> 2147483648 mod ?n \<noteq> 0"
    by (auto simp: generateHashFor_def Let_def b)
  then have c: "generateHashFor generateHash m INT_MIN = None \<longleftrightarrow> \<not> ?n dvd 2147483648"
    by (simp add: dvd_eq_mod_eq_0)
  from a b c show ?thesis by blast
qed

theorem generateHash_range_witness:
  "0 \<le> generateHash (- 5) 101 \<and> generateHash (- 5) 101 < 101 \<and>
   generateHash INT_MIN 101 = - 34 \<and>
   generateHashFor generateHash (HashMap_new 101 :: (int32, int) HashMap) INT_MIN = None"
proof -
  let ?m = "HashMap_new 101 :: (int32, int) HashMap"
  have n: "getNumSlots ?m = 101" by simp
  then have p: "0 < getNumSlots ?m" by simp
  have k: "(- 5 :: int32) \<noteq> INT_MIN" by (simp add: INT_MIN_def)
  from generateHash_range[OF p, of "- 5"] k show ?thesis by (simp add: n)
qed

theorem generateHash_INT_MIN_in_range_counterexample:
  "0 \<le> generateHash INT_MIN 2 \<and> generateHash INT_MIN 2 < 2"
  by (simp add: generateHash_def std_abs_def INT_MIN_def signed_modulo_int_def)

section \<open>The invariants of reachable maps\<close>

text \<open>
  Claim C4. Every map that the public operations (\<open>set\<close>, \<open>remove\<close>, \<open>removeValue\<close>,
  \<open>clear\<close>, \<open>remapTable\<close>, \<open>swapWith\<close>) produce from newly constructed maps satisfies the
  three invariants: every entry sits in the bucket that its key hashes to for the current
  slot count, no two entries share a key, and the counter is the sum of the chain
  lengths. The hash is in range wherever an operation returned, since the operation
  asserts it.
\<close>

theorem reachable_invariants:
  "reachable gh m \<Longrightarrow> entry_in_own_bucket gh m \<and> keys_unique m \<and> count_is_sum m"
  using reachable_inv[of gh m] by (simp add: hm_inv_def)

theorem reachable_invariants_witness:
  "reachable generateHash \<lparr>slots = [[(2, ''b'')], [(1, ''a'')]], totalNumItems = 2\<rparr> \<and>
   entry_in_own_bucket generateHash \<lparr>slots = [[(2, ''b'')], [(1, ''a'')]], totalNumItems = 2\<rparr> \<and>
   keys_unique \<lparr>slots = [[(2 :: int32, ''b'')], [(1, ''a'')]], totalNumItems = 2\<rparr> \<and>
   count_is_sum \<lparr>slots = [[(2 :: int32, ''b'')], [(1, ''a'')]], totalNumItems = 2\<rparr>"
proof -
  have s1: "set_hm generateHash (HashMap_new 1) 1 ''a'' =
      Some \<lparr>slots = [[(1, ''a'')]], totalNumItems = 1\<rparr>"
    by code_simp
  have s2: "set_hm generateHash \<lparr>slots = [[(1, ''a'')]], totalNumItems = 1\<rparr> 2 ''b'' =
      Some \<lparr>slots = [[(2, ''b'')], [(1, ''a'')]], totalNumItems = 2\<rparr>"
    by code_simp
  have r: "reachable generateHash \<lparr>slots = [[(2, ''b'')], [(1, ''a'')]], totalNumItems = 2\<rparr>"
    by (rule r_set[OF r_set[OF r_new s1] s2])
  from reachable_invariants[OF r] r show ?thesis by simp
qed

section \<open>Removing a key\<close>

lemma find_chain_None_iff: "find_chain k ch = None \<longleftrightarrow> k \<notin> fst ` set ch"
  by (simp add: find_chain_map_of map_of_eq_None_iff)

lemma contains_False_iff:
  "contains gh m k = Some False \<longleftrightarrow>
     (\<exists>h. generateHashFor gh m k = Some h \<and> find_chain k (slots m ! nat h) = None)"
  by (auto simp: contains_def split: option.splits)


lemma generateHashFor_slots_cong:
  "length (slots m') = length (slots m) \<Longrightarrow> generateHashFor gh m' k = generateHashFor gh m k"
  by (simp add: generateHashFor_def getNumSlots_def)







section \<open>Removing by value\<close>

lemma removeValue_slots_eq:
  assumes "i \<le> length (slots m)"
  shows "slots (removeValue_slots i v m) =
           map (filter (\<lambda>e. snd e \<noteq> v)) (take i (slots m)) @ drop i (slots m) \<and>
         totalNumItems (removeValue_slots i v m) =
           totalNumItems m - int (length (filter (\<lambda>e. snd e = v) (concat (take i (slots m)))))"
  using assms
proof (induction i arbitrary: m)
  case 0
  then show ?case by simp
next
  case (Suc i)
  let ?x = "filter (\<lambda>e. snd e \<noteq> v) (slots m ! i)"
  let ?m1 = "m\<lparr>slots := (slots m)[i := ?x],
      totalNumItems := totalNumItems m - int (length (filter (\<lambda>e. snd e = v) (slots m ! i)))\<rparr>"
  from Suc.prems have i: "i < length (slots m)" by simp
  have r: "removeValue_slots (Suc i) v m = removeValue_slots i v ?m1"
    by (simp add: removeValue_chain_filter)
  have "i \<le> length (slots ?m1)" using i by simp
  from Suc.IH[OF this]
  have ih: "slots (removeValue_slots i v ?m1) =
           map (filter (\<lambda>e. snd e \<noteq> v)) (take i (slots ?m1)) @ drop i (slots ?m1)"
    "totalNumItems (removeValue_slots i v ?m1) =
           totalNumItems ?m1 - int (length (filter (\<lambda>e. snd e = v) (concat (take i (slots ?m1)))))"
    by blast+
  have t: "take i (slots ?m1) = take i (slots m)" by simp
  have d: "drop i (slots ?m1) = ?x # drop (Suc i) (slots m)"
    using i by (simp add: upd_conv_take_nth_drop)
  have ts: "take (Suc i) (slots m) = take i (slots m) @ [slots m ! i]"
    using i by (rule take_Suc_conv_app_nth)
  show ?case
    unfolding r ih t d ts by simp
qed

lemma removeValue_eq:
  "slots (removeValue m v) = map (filter (\<lambda>e. snd e \<noteq> v)) (slots m)"
  "totalNumItems (removeValue m v) =
     totalNumItems m - int (length (filter (\<lambda>e. snd e = v) (entries m)))"
  using removeValue_slots_eq[of "length (slots m)" m v] by (simp_all add: removeValue_def entries_def)

lemma value_in_chain_iff: "value_in_chain v ch \<longleftrightarrow> v \<in> snd ` set ch"
  by (induction ch) auto

lemma find_chain_filter_value:
  assumes "distinct (map fst ch)"
  shows "find_chain k (filter (\<lambda>e. snd e \<noteq> v) ch) =
           (if find_chain k ch = Some v then None else find_chain k ch)"
  using assms
proof (induction ch)
  case Nil
  then show ?case by simp
next
  case (Cons e ch)
  then have "fst e = k \<Longrightarrow> find_chain k (filter (\<lambda>e. snd e \<noteq> v) ch) = None"
    by (auto simp: find_chain_None_iff)
  with Cons show ?case by auto
qed

lemma lookup_removeValue:
  assumes "keys_unique m"
  shows "lookup_hm gh dflt (removeValue m v) k =
           (if contains gh m k = Some True \<and> lookup_hm gh dflt m k = Some v then Some dflt
            else lookup_hm gh dflt m k)"
    and "contains gh (removeValue m v) k =
           (if contains gh m k = Some True \<and> lookup_hm gh dflt m k = Some v then Some False
            else contains gh m k)"
proof -
  have l: "length (slots (removeValue m v)) = length (slots m)"
    by (simp add: removeValue_eq)
  note g = generateHashFor_slots_cong[OF l, of gh k]
  show "lookup_hm gh dflt (removeValue m v) k =
           (if contains gh m k = Some True \<and> lookup_hm gh dflt m k = Some v then Some dflt
            else lookup_hm gh dflt m k)"
  proof (cases "generateHashFor gh m k")
    case None
    then show ?thesis by (simp add: lookup_hm_def contains_def g)
  next
    case (Some h)
    note hl = generateHashFor_less[OF Some]
    from chain_keys_distinct[OF assms hl]
    have "find_chain k (slots (removeValue m v) ! nat h) =
           (if find_chain k (slots m ! nat h) = Some v then None else find_chain k (slots m ! nat h))"
      using hl by (simp add: removeValue_eq find_chain_filter_value)
    then show ?thesis
      by (auto simp: lookup_hm_def contains_def g Some split: option.splits)
  qed
  show "contains gh (removeValue m v) k =
           (if contains gh m k = Some True \<and> lookup_hm gh dflt m k = Some v then Some False
            else contains gh m k)"
  proof (cases "generateHashFor gh m k")
    case None
    then show ?thesis by (simp add: lookup_hm_def contains_def g)
  next
    case (Some h)
    note hl = generateHashFor_less[OF Some]
    from chain_keys_distinct[OF assms hl]
    have "find_chain k (slots (removeValue m v) ! nat h) =
           (if find_chain k (slots m ! nat h) = Some v then None else find_chain k (slots m ! nat h))"
      using hl by (simp add: removeValue_eq find_chain_filter_value)
    then show ?thesis
      by (auto simp: lookup_hm_def contains_def g Some split: option.splits)
  qed
qed

text \<open>
  Claim C6. For every map and every value \<open>v\<close>, \<open>removeValue (v)\<close> removes from every chain
  exactly the entries whose value is \<open>v\<close> and keeps the others in place; no entry with
  value \<open>v\<close> remains; \<open>size()\<close> goes down by the number of entries that had value \<open>v\<close>; and,
  the keys of the map being unique, a key whose entry had value \<open>v\<close> is absent afterwards
  while every other key looks up to what it did before.
\<close>

theorem removeValue_removes_exactly:
  "slots (removeValue m v) = map (filter (\<lambda>e. snd e \<noteq> v)) (slots m) \<and>
   \<not> containsValue (removeValue m v) v \<and>
   size_hm (removeValue m v) = size_hm m - int (length (filter (\<lambda>e. snd e = v) (entries m))) \<and>
   (keys_unique m \<longrightarrow>
      lookup_hm gh dflt (removeValue m v) k =
        (if contains gh m k = Some True \<and> lookup_hm gh dflt m k = Some v then Some dflt
         else lookup_hm gh dflt m k) \<and>
      contains gh (removeValue m v) k =
        (if contains gh m k = Some True \<and> lookup_hm gh dflt m k = Some v then Some False
         else contains gh m k))"
proof -
  have "\<not> containsValue (removeValue m v) v"
    by (auto simp: containsValue_def list_ex_iff value_in_chain_iff removeValue_eq)
  moreover have "keys_unique m \<longrightarrow>
      lookup_hm gh dflt (removeValue m v) k =
        (if contains gh m k = Some True \<and> lookup_hm gh dflt m k = Some v then Some dflt
         else lookup_hm gh dflt m k) \<and>
      contains gh (removeValue m v) k =
        (if contains gh m k = Some True \<and> lookup_hm gh dflt m k = Some v then Some False
         else contains gh m k)"
    by (intro impI conjI lookup_removeValue)
  ultimately show ?thesis
    by (simp only: removeValue_eq size_hm_def) simp
qed

theorem removeValue_removes_exactly_witness:
  "removeValue \<lparr>slots = [[(2 :: int32, ''x''), (4, ''y'')], [(1, ''x'')]], totalNumItems = 3\<rparr> ''x'' =
     \<lparr>slots = [[(4, ''y'')], []], totalNumItems = 1\<rparr> \<and>
   lookup_hm generateHash ''none'' (removeValue \<lparr>slots = [[(2, ''x''), (4, ''y'')], [(1, ''x'')]], totalNumItems = 3\<rparr> ''x'') 2 = Some ''none'' \<and>
   lookup_hm generateHash ''none'' (removeValue \<lparr>slots = [[(2, ''x''), (4, ''y'')], [(1, ''x'')]], totalNumItems = 3\<rparr> ''x'') 4 = Some ''y''"
proof -
  let ?m = "\<lparr>slots = [[(2 :: int32, ''x''), (4, ''y'')], [(1, ''x'')]], totalNumItems = 3\<rparr>"
  have ku: "keys_unique ?m" by (simp add: keys_unique_def entries_def)
  have c: "contains generateHash ?m 2 = Some True" "lookup_hm generateHash ''none'' ?m 2 = Some ''x''"
    "contains generateHash ?m 4 = Some True" "lookup_hm generateHash ''none'' ?m 4 = Some ''y''"
    by code_simp+
  have e: "removeValue ?m ''x'' = \<lparr>slots = [[(4, ''y'')], []], totalNumItems = 1\<rparr>"
    by code_simp
  from removeValue_removes_exactly[of ?m "''x''" generateHash "''none''" 2]
    removeValue_removes_exactly[of ?m "''x''" generateHash "''none''" 4] ku c e
  show ?thesis by simp
qed

section \<open>Insertion of a new key and growth\<close>

lemma set_hm_new_key:
  assumes "generateHashFor gh m k = Some h" "find_chain k (slots m ! nat h) = None"
  shows "set_hm gh m k v =
     (if totalNumItems m + 1 > int32 (getNumSlots m * 3) sdiv 2
      then remapTable gh (m\<lparr>slots := (slots m)[nat h := (k, v) # slots m ! nat h],
                            totalNumItems := totalNumItems m + 1\<rparr>) (int32 (getNumSlots m * 2))
      else Some (m\<lparr>slots := (slots m)[nat h := (k, v) # slots m ! nat h],
                   totalNumItems := totalNumItems m + 1\<rparr>))"
proof -
  from assms(2) have "set_chain k v (slots m ! nat h) = None"
    by (simp add: set_chain_None_iff find_chain_None_iff)
  with assms(1) show ?thesis
    by (simp add: set_hm.simps Let_def)
qed

lemma set_hm_existing_key:
  assumes "generateHashFor gh m k = Some h" "find_chain k (slots m ! nat h) \<noteq> None"
  shows "\<exists>ch. set_chain k v (slots m ! nat h) = Some ch \<and>
              set_hm gh m k v = Some (m\<lparr>slots := (slots m)[nat h := ch]\<rparr>)"
proof -
  from assms(2) have "set_chain k v (slots m ! nat h) \<noteq> None"
    by (simp add: set_chain_None_iff find_chain_None_iff)
  then obtain ch where "set_chain k v (slots m ! nat h) = Some ch" by auto
  with assms(1) show ?thesis by (simp add: set_hm.simps)
qed

lemma set_no_growth:
  assumes "generateHashFor gh t k = Some h"
    "totalNumItems t + 1 \<le> int32 (getNumSlots t * 3) sdiv 2"
  shows "\<exists>t'. set_hm gh t k v = Some t' \<and> getNumSlots t' = getNumSlots t \<and>
              totalNumItems t' \<le> totalNumItems t + 1"
proof (cases "find_chain k (slots t ! nat h)")
  case None
  from set_hm_new_key[OF assms(1) None, of v] assms(2) show ?thesis by simp
next
  case (Some x)
  then have "find_chain k (slots t ! nat h) \<noteq> None" by simp
  from set_hm_existing_key[OF assms(1) this, of v] show ?thesis by auto
qed

lemma loop_no_growth:
  assumes "hash_in_range gh (fst ` set es)" "0 < getNumSlots t"
    "totalNumItems t + int (length es) \<le> int32 (getNumSlots t * 3) sdiv 2"
  shows "\<exists>t'. remapLoop gh es t = Some t' \<and> getNumSlots t' = getNumSlots t \<and>
              totalNumItems t' \<le> totalNumItems t + int (length es)"
  using assms
proof (induction es arbitrary: t)
  case Nil
  then show ?case by simp
next
  case (Cons e es)
  from Cons.prems(1,2) have h: "generateHashFor gh t (fst e) = Some (gh (fst e) (getNumSlots t))"
    by (intro hash_in_range_Some[where K = "fst ` set (e # es)"]) (simp_all add: getNumSlots_def)
  from Cons.prems(3) have "totalNumItems t + 1 \<le> int32 (getNumSlots t * 3) sdiv 2" by simp
  from set_no_growth[OF h this, of "snd e"] obtain t1 where
    t1: "set_hm gh t (fst e) (snd e) = Some t1" "getNumSlots t1 = getNumSlots t"
      "totalNumItems t1 \<le> totalNumItems t + 1" by blast
  have "hash_in_range gh (fst ` set es)"
    using Cons.prems(1) by (auto elim: hash_in_range_mono)
  moreover have "0 < getNumSlots t1" using t1(2) Cons.prems(2) by simp
  moreover have "totalNumItems t1 + int (length es) \<le> int32 (getNumSlots t1 * 3) sdiv 2"
    using t1(2,3) Cons.prems(3) by simp
  ultimately obtain t' where t': "remapLoop gh es t1 = Some t'" "getNumSlots t' = getNumSlots t1"
      "totalNumItems t' \<le> totalNumItems t1 + int (length es)"
    using Cons.IH[of t1] by blast
  from t1 t' show ?case by simp
qed

lemma not_in_keys_find_chain:
  assumes "k \<notin> keys_of m" "i < length (slots m)"
  shows "find_chain k (slots m ! i) = None"
  using assms chain_subset_entries[OF assms(2)]
  by (auto simp: find_chain_None_iff keys_of_def)

text \<open>
  A \<open>set\<close> with a new key, within the sizes where the products of the growth check do
  not wrap: at most 715827882 slots, and fewer than \<open>2^29\<close> items after the insertion.
\<close>

lemma set_new_key_step:
  assumes inv: "hm_inv gh m" and load: "load_ok m" and pos: "0 < getNumSlots m"
    and small: "getNumSlots m \<le> 715827882" and cnt: "totalNumItems m + 1 < 536870912"
    and hr: "hash_in_range gh (insert k (keys_of m))" and new: "k \<notin> keys_of m"
  shows "\<exists>m'. set_hm gh m k v = Some m' \<and> hm_inv gh m' \<and> load_ok m' \<and>
           map_of (entries m') = (map_of (entries m))(k \<mapsto> v) \<and>
           size_hm m' = size_hm m + 1 \<and>
           getNumSlots m' = (if size_hm m + 1 > (getNumSlots m * 3) div 2
                             then getNumSlots m * 2 else getNumSlots m) \<and>
           getNumSlots m' = (if size_hm m + 1 > int32 (getNumSlots m * 3) sdiv 2
                             then int32 (getNumSlots m * 2) else getNumSlots m) \<and>
           getNumSlots m' \<le> 715827882"
proof -
  let ?n = "getNumSlots m"
  from pos have lpos: "0 < length (slots m)" by (simp add: getNumSlots_def)
  from pos small have thr: "int32 (?n * 3) sdiv 2 = (?n * 3) div 2"
    by (intro threshold_plain) simp_all
  from hr lpos have h: "generateHashFor gh m k = Some (gh k ?n)"
    by (intro hash_in_range_Some[where K = "insert k (keys_of m)"]) simp_all
  note hl = generateHashFor_less[OF h]
  note f = not_in_keys_find_chain[OF new hl]
  let ?m1 = "m\<lparr>slots := (slots m)[nat (gh k ?n) := (k, v) # slots m ! nat (gh k ?n)],
                totalNumItems := totalNumItems m + 1\<rparr>"
  have "\<exists>m'. set_hm gh m k v = Some m' \<and>
      getNumSlots m' = (if size_hm m + 1 > (?n * 3) div 2 then ?n * 2 else ?n) \<and>
      getNumSlots m' = (if size_hm m + 1 > int32 (?n * 3) sdiv 2 then int32 (?n * 2) else ?n) \<and>
      getNumSlots m' \<le> 715827882"
  proof (cases "totalNumItems m + 1 > (?n * 3) div 2")
    case True
    with cnt have n2: "?n \<le> 357913940" by linarith
    with pos have dbl: "int32 (?n * 2) = ?n * 2" by (intro int32_id) simp_all
    from f have sc: "set_chain k v (slots m ! nat (gh k ?n)) = None"
      by (simp add: set_chain_None_iff find_chain_None_iff)
    from insert_step[OF inv h sc] have i1: "hm_inv gh ?m1"
      "map_of (entries ?m1) = (map_of (entries m))(k \<mapsto> v)" by simp_all
    from i1(2) have k1: "keys_of ?m1 = insert k (keys_of m)" by (simp add: keys_of_dom)
    define es where "es = concat (rev (slots ?m1))"
    define t0 where "t0 = (HashMap_new (?n * 2) :: ('a, 'b) HashMap)"
    have "fst ` set es = keys_of ?m1" by (simp add: keys_of_def entries_def es_def)
    with hr k1 have a: "hash_in_range gh (fst ` set es)" by simp
    have t0: "getNumSlots t0 = ?n * 2" "totalNumItems t0 = 0" using pos by (simp_all add: t0_def)
    have b: "0 < getNumSlots t0" using pos by (simp add: t0)
    have thr0: "int32 (getNumSlots t0 * 3) sdiv 2 = (getNumSlots t0 * 3) div 2"
      using pos n2 by (intro threshold_plain) (simp_all add: t0)
    have "length es = numEntries ?m1"
      by (simp add: numEntries_def length_concat rev_map[symmetric] es_def)
    also have "int \<dots> = totalNumItems m + 1"
      using i1(1) by (simp add: hm_inv_def count_is_sum_iff)
    finally have len: "int (length es) = totalNumItems m + 1" .
    from load_ok_plain[OF load] pos have "totalNumItems m + 1 \<le> ?n * 3" by linarith
    then have c: "totalNumItems t0 + int (length es) \<le> int32 (getNumSlots t0 * 3) sdiv 2"
      unfolding thr0 unfolding t0 len by simp
    from loop_no_growth[OF a b c] obtain t' where
      "remapLoop gh es t0 = Some t'" "getNumSlots t' = getNumSlots t0" by blast
    then have t': "remapLoop gh (concat (rev (slots ?m1))) (HashMap_new (?n * 2)) = Some t'"
        "getNumSlots t' = ?n * 2" by (simp_all add: es_def t0_def[symmetric] t0)
    from set_hm_new_key[OF h f, of v] True thr dbl
    have "set_hm gh m k v = remapTable gh ?m1 (?n * 2)" by simp
    with t'(1) have "set_hm gh m k v = Some t'" by (simp add: remapTable_eq)
    with t'(2) True thr dbl n2 show ?thesis by (simp add: size_hm_def)
  next
    case False
    with set_hm_new_key[OF h f, of v] thr have "set_hm gh m k v = Some ?m1" by simp
    with False thr small show ?thesis by (simp add: size_hm_def)
  qed
  then obtain m' where m': "set_hm gh m k v = Some m'"
    and sl: "getNumSlots m' = (if size_hm m + 1 > (?n * 3) div 2 then ?n * 2 else ?n)"
      "getNumSlots m' = (if size_hm m + 1 > int32 (?n * 3) sdiv 2 then int32 (?n * 2) else ?n)"
      "getNumSlots m' \<le> 715827882" by blast
  from set_remap_correct(1)[of gh m k v] inv load m'
  have p: "hm_inv gh m'" "load_ok m'" "map_of (entries m') = (map_of (entries m))(k \<mapsto> v)"
    by blast+
  from p(3) have "keys_of m' = insert k (keys_of m)" by (simp add: keys_of_dom)
  with new have "card (keys_of m') = card (keys_of m) + 1"
    by (simp add: keys_of_def)
  with size_card_keys[OF inv] size_card_keys[OF p(1)]
  have sz: "size_hm m' = size_hm m + 1" by simp
  from m' p sz sl show ?thesis by blast
qed

lemma set_existing_key_step:
  assumes inv: "hm_inv gh m" and h: "generateHashFor gh m k = Some h" and old: "k \<in> keys_of m"
  shows "\<exists>m'. set_hm gh m k v = Some m' \<and> hm_inv gh m' \<and> (load_ok m \<longrightarrow> load_ok m') \<and>
           map_of (entries m') = (map_of (entries m))(k \<mapsto> v) \<and>
           size_hm m' = size_hm m \<and> getNumSlots m' = getNumSlots m"
proof -
  from lookup_map_of(2)[OF inv h] old have "contains gh m k = Some True" by simp
  with h have "find_chain k (slots m ! nat h) \<noteq> None"
    by (auto simp: contains_def split: option.splits)
  from set_hm_existing_key[OF h this, of v] obtain m' where
    m': "set_hm gh m k v = Some m'" "getNumSlots m' = getNumSlots m" by auto
  from set_remap_correct(1)[of gh m k v] inv m'(1)
  have p: "hm_inv gh m'" "load_ok m \<longrightarrow> load_ok m'"
    "map_of (entries m') = (map_of (entries m))(k \<mapsto> v)" by blast+
  from p(3) old have "keys_of m' = keys_of m" by (auto simp: keys_of_dom)
  with size_card_keys[OF inv] size_card_keys[OF p(1)] have "size_hm m' = size_hm m" by simp
  with m' p show ?thesis by blast
qed

lemma set_calls_correct:
  assumes "hm_inv gh m" "load_ok m" "0 < getNumSlots m" "getNumSlots m \<le> 715827882"
    "hash_in_range gh (keys_of m \<union> fst ` set kvs)" "size_hm m + int (length kvs) < 536870912"
  shows "\<exists>m'. set_calls gh m kvs = Some m' \<and> hm_inv gh m' \<and> load_ok m' \<and>
           map_of (entries m') = map_of (entries m) ++ map_of (rev kvs) \<and>
           0 < getNumSlots m' \<and> getNumSlots m' \<le> 715827882"
  using assms
proof (induction kvs arbitrary: m)
  case Nil
  then show ?case by simp
next
  case (Cons kv kvs)
  from Cons.prems(3) have lpos: "0 < length (slots m)" by (simp add: getNumSlots_def)
  from Cons.prems(5) have hr1: "hash_in_range gh (insert (fst kv) (keys_of m))"
    by (auto elim: hash_in_range_mono)
  from hr1 lpos have h: "generateHashFor gh m (fst kv) = Some (gh (fst kv) (getNumSlots m))"
    by (intro hash_in_range_Some[where K = "insert (fst kv) (keys_of m)"]) simp_all
  have "\<exists>m1. set_hm gh m (fst kv) (snd kv) = Some m1 \<and> hm_inv gh m1 \<and> load_ok m1 \<and>
      map_of (entries m1) = (map_of (entries m))(fst kv \<mapsto> snd kv) \<and>
      size_hm m1 \<le> size_hm m + 1 \<and> 0 < getNumSlots m1 \<and> getNumSlots m1 \<le> 715827882"
  proof (cases "fst kv \<in> keys_of m")
    case True
    from set_existing_key_step[OF Cons.prems(1) h True, of "snd kv"] Cons.prems(2,3,4)
    show ?thesis by auto
  next
    case False
    from Cons.prems(6) have "totalNumItems m + 1 < 536870912" by (simp add: size_hm_def)
    from set_new_key_step[OF Cons.prems(1,2,3,4) this hr1 False, of "snd kv"] Cons.prems(3)
    show ?thesis by (auto split: if_splits)
  qed
  then obtain m1 where m1: "set_hm gh m (fst kv) (snd kv) = Some m1" "hm_inv gh m1" "load_ok m1"
      "map_of (entries m1) = (map_of (entries m))(fst kv \<mapsto> snd kv)"
      "size_hm m1 \<le> size_hm m + 1" "0 < getNumSlots m1" "getNumSlots m1 \<le> 715827882"
    by blast
  from m1(4) have k1: "keys_of m1 = insert (fst kv) (keys_of m)" by (simp add: keys_of_dom)
  have hr': "hash_in_range gh (keys_of m1 \<union> fst ` set kvs)"
    using Cons.prems(5) k1 by (auto elim: hash_in_range_mono)
  have sz: "size_hm m1 + int (length kvs) < 536870912" using m1(5) Cons.prems(6) by simp
  from Cons.IH[OF m1(2,3,6,7) hr' sz] obtain m' where
    m': "set_calls gh m1 kvs = Some m'" "hm_inv gh m'" "load_ok m'"
      "map_of (entries m') = map_of (entries m1) ++ map_of (rev kvs)"
      "0 < getNumSlots m'" "getNumSlots m' \<le> 715827882" by blast
  have "map_of (entries m') = map_of (entries m) ++ map_of (rev (kv # kvs))"
    by (cases kv) (simp add: m'(4) m1(4) map_add_assoc[symmetric])
  with m1(1) m' show ?case by simp
qed

lemma set_calls_new_keys:
  assumes "hm_inv gh m" "load_ok m" "0 < getNumSlots m" "getNumSlots m \<le> 715827882"
    "hash_in_range gh (keys_of m \<union> fst ` set kvs)" "size_hm m + int (length kvs) < 536870912"
    "distinct (map fst kvs)" "fst ` set kvs \<inter> keys_of m = {}"
  shows "\<exists>m'. set_calls gh m kvs = Some m' \<and> hm_inv gh m' \<and>
           getNumSlots m' = slots_after (size_hm m) (getNumSlots m) (length kvs) \<and>
           size_hm m' = size_hm m + int (length kvs) \<and>
           map_of (entries m') = map_of (entries m) ++ map_of (rev kvs)"
  using assms
proof (induction kvs arbitrary: m)
  case Nil
  then show ?case by simp
next
  case (Cons kv kvs)
  from Cons.prems(5) have hr1: "hash_in_range gh (insert (fst kv) (keys_of m))"
    by (auto elim: hash_in_range_mono)
  from Cons.prems(8) have new: "fst kv \<notin> keys_of m" by auto
  from Cons.prems(6) have cnt: "totalNumItems m + 1 < 536870912" by (simp add: size_hm_def)
  from set_new_key_step[OF Cons.prems(1,2,3,4) cnt hr1 new, of "snd kv"] obtain m1 where
    m1: "set_hm gh m (fst kv) (snd kv) = Some m1" "hm_inv gh m1" "load_ok m1"
      "map_of (entries m1) = (map_of (entries m))(fst kv \<mapsto> snd kv)"
      "size_hm m1 = size_hm m + 1"
      "getNumSlots m1 = (if size_hm m + 1 > (getNumSlots m * 3) div 2
                             then getNumSlots m * 2 else getNumSlots m)"
      "getNumSlots m1 = (if size_hm m + 1 > int32 (getNumSlots m * 3) sdiv 2
                             then int32 (getNumSlots m * 2) else getNumSlots m)"
      "getNumSlots m1 \<le> 715827882" by blast
  from m1(4) have k1: "keys_of m1 = insert (fst kv) (keys_of m)" by (simp add: keys_of_dom)
  have p1: "0 < getNumSlots m1" using m1(6) Cons.prems(3) by (simp split: if_splits)
  have hr': "hash_in_range gh (keys_of m1 \<union> fst ` set kvs)"
    using Cons.prems(5) k1 by (auto elim: hash_in_range_mono)
  have sz: "size_hm m1 + int (length kvs) < 536870912" using m1(5) Cons.prems(6) by simp
  have d': "distinct (map fst kvs)" using Cons.prems(7) by simp
  have dj: "fst ` set kvs \<inter> keys_of m1 = {}"
    using Cons.prems(7,8) k1 by auto
  from Cons.IH[OF m1(2,3) p1 m1(8) hr' sz d' dj] obtain m' where
    m': "set_calls gh m1 kvs = Some m'" "hm_inv gh m'"
      "getNumSlots m' = slots_after (size_hm m1) (getNumSlots m1) (length kvs)"
      "size_hm m' = size_hm m1 + int (length kvs)"
      "map_of (entries m') = map_of (entries m1) ++ map_of (rev kvs)" by blast
  have "map_of (entries m') = map_of (entries m) ++ map_of (rev (kv # kvs))"
    by (cases kv) (simp add: m'(5) m1(4) map_add_assoc[symmetric])
  with m1(1,5,7) m' show ?case by simp
qed

section \<open>Where a new entry goes\<close>

text \<open>
  Claim C8, as amended. For every map and every key \<open>k\<close> not present in it (its hash in
  range), \<open>set (k, v)\<close> first puts the new entry in front of the chain that \<open>k\<close> hashes
  to: the new entry becomes the head, the existing entries follow in their order, the
  other chains stay as they are and the counter goes up by one. If the new counter is at
  most \<open>(getNumSlots() * 3) / 2\<close> that map is the result; otherwise the result is that of
  \<open>remapTable (getNumSlots() * 2)\<close> on that map, both products being 32-bit. For a map
  that satisfies the invariants and the load bound, with at most 715827882 slots, fewer
  than \<open>2^29\<close> items after the insertion and a hash in range on its keys, the call
  returns, \<open>size()\<close> is one more than before, the key looks up to \<open>v\<close>, and the slot count
  is doubled exactly when the new counter exceeds \<open>(getNumSlots() * 3) / 2\<close>.
\<close>

theorem set_new_key_at_head:
  assumes "contains gh m k = Some False"
  shows "(\<exists>h m1. generateHashFor gh m k = Some h \<and>
           m1 = m\<lparr>slots := (slots m)[nat h := (k, v) # slots m ! nat h],
                   totalNumItems := totalNumItems m + 1\<rparr> \<and>
           slots m1 ! nat h = (k, v) # slots m ! nat h \<and>
           (\<forall>i. i \<noteq> nat h \<longrightarrow> slots m1 ! i = slots m ! i) \<and>
           size_hm m1 = size_hm m + 1 \<and>
           set_hm gh m k v =
             (if size_hm m1 > int32 (getNumSlots m * 3) sdiv 2
              then remapTable gh m1 (int32 (getNumSlots m * 2)) else Some m1)) \<and>
         (hm_inv gh m \<and> load_ok m \<and> hash_in_range gh (insert k (keys_of m)) \<and>
          getNumSlots m \<le> 715827882 \<and> size_hm m + 1 < 536870912 \<longrightarrow>
            (\<exists>m'. set_hm gh m k v = Some m' \<and> size_hm m' = size_hm m + 1 \<and>
                  lookup_hm gh dflt m' k = Some v \<and>
                  getNumSlots m' = (if size_hm m + 1 > (getNumSlots m * 3) div 2
                                    then getNumSlots m * 2 else getNumSlots m)))"
proof -
  from assms obtain h where h: "generateHashFor gh m k = Some h"
    and f: "find_chain k (slots m ! nat h) = None"
    unfolding contains_False_iff by blast
  note hl = generateHashFor_less[OF h]
  define m1 where "m1 = m\<lparr>slots := (slots m)[nat h := (k, v) # slots m ! nat h],
                   totalNumItems := totalNumItems m + 1\<rparr>"
  have a: "slots m1 ! nat h = (k, v) # slots m ! nat h"
    "\<forall>i. i \<noteq> nat h \<longrightarrow> slots m1 ! i = slots m ! i" "size_hm m1 = size_hm m + 1"
    using hl by (simp_all add: m1_def size_hm_def)
  have s: "set_hm gh m k v =
             (if size_hm m1 > int32 (getNumSlots m * 3) sdiv 2
              then remapTable gh m1 (int32 (getNumSlots m * 2)) else Some m1)"
    using set_hm_new_key[OF h f, of v] by (simp add: m1_def size_hm_def)
  have b: "\<exists>m'. set_hm gh m k v = Some m' \<and> size_hm m' = size_hm m + 1 \<and>
                    lookup_hm gh dflt m' k = Some v \<and>
                    getNumSlots m' = (if size_hm m + 1 > (getNumSlots m * 3) div 2
                                      then getNumSlots m * 2 else getNumSlots m)"
    if c: "hm_inv gh m \<and> load_ok m \<and> hash_in_range gh (insert k (keys_of m)) \<and>
            getNumSlots m \<le> 715827882 \<and> size_hm m + 1 < 536870912"
  proof -
    from hl have pos: "0 < getNumSlots m" by (cases "slots m") (simp_all add: getNumSlots_def)
    from c have inv: "hm_inv gh m" by simp
    from lookup_map_of(2)[OF inv h] assms have new: "k \<notin> keys_of m" by simp
    from c have cnt: "totalNumItems m + 1 < 536870912" by (simp add: size_hm_def)
    from set_new_key_step[OF inv _ pos _ cnt _ new, of v] c obtain m' where
      m': "set_hm gh m k v = Some m'" "hm_inv gh m'"
        "map_of (entries m') = (map_of (entries m))(k \<mapsto> v)" "size_hm m' = size_hm m + 1"
        "getNumSlots m' = (if size_hm m + 1 > (getNumSlots m * 3) div 2
                             then getNumSlots m * 2 else getNumSlots m)" by blast
    from m'(5) pos have "0 < getNumSlots m'" by (simp split: if_splits)
    then have "0 < length (slots m')" by (simp add: getNumSlots_def)
    with c have "generateHashFor gh m' k = Some (gh k (getNumSlots m'))"
      by (intro hash_in_range_Some[where K = "insert k (keys_of m)"]) simp_all
    from lookup_map_of(1)[OF m'(2) this, of dflt] m'(3)
    have "lookup_hm gh dflt m' k = Some v" by simp
    with m' show ?thesis by auto
  qed
  from h a s have "\<exists>h m1. generateHashFor gh m k = Some h \<and>
           m1 = m\<lparr>slots := (slots m)[nat h := (k, v) # slots m ! nat h],
                   totalNumItems := totalNumItems m + 1\<rparr> \<and>
           slots m1 ! nat h = (k, v) # slots m ! nat h \<and>
           (\<forall>i. i \<noteq> nat h \<longrightarrow> slots m1 ! i = slots m ! i) \<and>
           size_hm m1 = size_hm m + 1 \<and>
           set_hm gh m k v =
             (if size_hm m1 > int32 (getNumSlots m * 3) sdiv 2
              then remapTable gh m1 (int32 (getNumSlots m * 2)) else Some m1)"
    by (intro exI[of _ h] exI[of _ m1]) (simp add: m1_def[symmetric])
  with b show ?thesis by blast
qed

theorem set_new_key_at_head_witness:
  "set_hm generateHash \<lparr>slots = [[], [(1, ''a'')], [], []], totalNumItems = 1\<rparr> 5 ''b'' =
     Some \<lparr>slots = [[], [(5, ''b''), (1, ''a'')], [], []], totalNumItems = 2\<rparr> \<and>
   (\<exists>m'. set_hm generateHash \<lparr>slots = [[(1, ''a'')]], totalNumItems = 1\<rparr> 2 ''b'' = Some m' \<and>
         size_hm m' = 2 \<and> lookup_hm generateHash ''none'' m' 2 = Some ''b'' \<and> getNumSlots m' = 2)"
proof -
  let ?m = "\<lparr>slots = [[], [(1 :: int32, ''a'')], [], []], totalNumItems = 1\<rparr>"
  let ?m2 = "\<lparr>slots = [[(1 :: int32, ''a'')]], totalNumItems = 1\<rparr>"
  have c: "contains generateHash ?m 5 = Some False" by code_simp
  have g: "generateHashFor generateHash ?m 5 = Some 1" by code_simp
  have t: "\<not> size_hm ?m + 1 > int32 (getNumSlots ?m * 3) sdiv 2" by code_simp
  from set_new_key_at_head[OF c, of "''b''" "''none''", THEN conjunct1] obtain h m1 where
    r: "generateHashFor generateHash ?m 5 = Some h"
      "m1 = ?m\<lparr>slots := (slots ?m)[nat h := (5, ''b'') # slots ?m ! nat h],
                   totalNumItems := totalNumItems ?m + 1\<rparr>"
      "size_hm m1 = size_hm ?m + 1"
      "set_hm generateHash ?m 5 ''b'' =
             (if size_hm m1 > int32 (getNumSlots ?m * 3) sdiv 2
              then remapTable generateHash m1 (int32 (getNumSlots ?m * 2)) else Some m1)"
    by blast
  from r(1) g have h: "h = 1" by simp
  from r(4) t have "set_hm generateHash ?m 5 ''b'' = Some m1" by (simp only: r(3) if_False)
  also have "m1 = \<lparr>slots = [[], [(5, ''b''), (1, ''a'')], [], []], totalNumItems = 2\<rparr>"
    unfolding r(2) h by simp
  finally have first: "set_hm generateHash ?m 5 ''b'' =
     Some \<lparr>slots = [[], [(5, ''b''), (1, ''a'')], [], []], totalNumItems = 2\<rparr>" .
  have c2: "contains generateHash ?m2 2 = Some False" by code_simp
  have inv2: "hm_inv generateHash ?m2" by code_simp
  have l2: "load_ok ?m2" by code_simp
  have k2: "keys_of ?m2 = {1}" by (simp add: keys_of_def entries_def)
  have h2: "hash_in_range generateHash (insert 2 (keys_of ?m2))"
    unfolding k2 by (rule hash_in_range_generateHash) (simp add: INT_MIN_def)
  have b2: "getNumSlots ?m2 \<le> 715827882" "size_hm ?m2 + 1 < 536870912"
    by (simp_all add: getNumSlots_def size_hm_def)
  note imp = set_new_key_at_head[OF c2, of "''b''" "''none''", THEN conjunct2]
  from imp inv2 l2 h2 b2 have "\<exists>m'. set_hm generateHash ?m2 2 ''b'' = Some m' \<and>
      size_hm m' = size_hm ?m2 + 1 \<and> lookup_hm generateHash ''none'' m' 2 = Some ''b'' \<and>
      getNumSlots m' = (if size_hm ?m2 + 1 > (getNumSlots ?m2 * 3) div 2
                        then getNumSlots ?m2 * 2 else getNumSlots ?m2)"
    by blast
  then have "\<exists>m'. set_hm generateHash ?m2 2 ''b'' = Some m' \<and> size_hm m' = 2 \<and>
      lookup_hm generateHash ''none'' m' 2 = Some ''b'' \<and> getNumSlots m' = 2"
    by (simp add: size_hm_def getNumSlots_def)
  with first show ?thesis by blast
qed

theorem set_new_key_appended_counterexample:
  "contains generateHash \<lparr>slots = [[], [(1, ''a'')], [], []], totalNumItems = 1\<rparr> 5 = Some False \<and>
   set_hm generateHash \<lparr>slots = [[], [(1, ''a'')], [], []], totalNumItems = 1\<rparr> 5 ''b'' =
     Some \<lparr>slots = [[], [(5, ''b''), (1, ''a'')], [], []], totalNumItems = 2\<rparr> \<and>
   [(5 :: int32, ''b''), (1, ''a'')] \<noteq> [(1, ''a'')] @ [(5, ''b'')]"
proof -
  have "contains generateHash \<lparr>slots = [[], [(1, ''a'')], [], []], totalNumItems = 1\<rparr> 5 = Some False"
    by code_simp
  moreover have "set_hm generateHash \<lparr>slots = [[], [(1, ''a'')], [], []], totalNumItems = 1\<rparr> 5 ''b'' =
     Some \<lparr>slots = [[], [(5, ''b''), (1, ''a'')], [], []], totalNumItems = 2\<rparr>"
    by code_simp
  ultimately show ?thesis by simp
qed

section \<open>Sequences of set calls on a new map\<close>

text \<open>
  Claim C1, as amended. For every sequence of fewer than \<open>2^29\<close> \<open>set (k, v)\<close> calls on a
  map newly constructed with at least one and at most 715827882 slots, with keys possibly
  repeated and a hash function that keeps its range contract on the keys used: every call
  returns, \<open>size()\<close> is the number of distinct keys of the sequence, and \<open>operator[]\<close> on
  a key returns the value of the last call that used the key.
\<close>

theorem set_calls_size_and_last_value:
  assumes "0 < numberOfSlots" and "numberOfSlots \<le> 715827882"
    and "hash_in_range gh (fst ` set kvs)" and "length kvs < 536870912"
  shows "\<exists>m. set_calls gh (HashMap_new numberOfSlots) kvs = Some m \<and>
           size_hm m = int (card (fst ` set kvs)) \<and>
           (\<forall>i<length kvs. (\<forall>j. i < j \<and> j < length kvs \<longrightarrow> fst (kvs ! j) \<noteq> fst (kvs ! i)) \<longrightarrow>
              lookup_hm gh dflt m (fst (kvs ! i)) = Some (snd (kvs ! i)))"
proof -
  let ?m0 = "HashMap_new numberOfSlots :: ('a, 'b) HashMap"
  have "hm_inv gh ?m0" "load_ok ?m0" "0 < getNumSlots ?m0" "getNumSlots ?m0 \<le> 715827882"
    "hash_in_range gh (keys_of ?m0 \<union> fst ` set kvs)" "size_hm ?m0 + int (length kvs) < 536870912"
    using assms by (simp_all add: size_hm_def)
  from set_calls_correct[OF this] obtain m where m: "set_calls gh ?m0 kvs = Some m"
    "hm_inv gh m" "map_of (entries m) = map_of (rev kvs)" "0 < getNumSlots m"
    by auto
  from m(3) have keys: "keys_of m = fst ` set kvs"
    by (simp add: keys_of_dom dom_map_of_conv_image_fst)
  have pos: "0 < length (slots m)" using m(4) by (simp add: getNumSlots_def)
  have "lookup_hm gh dflt m (fst (kvs ! i)) = Some (snd (kvs ! i))"
    if i: "i < length kvs" and l: "\<forall>j. i < j \<and> j < length kvs \<longrightarrow> fst (kvs ! j) \<noteq> fst (kvs ! i)" for i
  proof -
    from i have "fst (kvs ! i) \<in> fst ` set kvs" by simp
    from hash_in_range_Some[OF assms(3) this pos]
    have "generateHashFor gh m (fst (kvs ! i)) = Some (gh (fst (kvs ! i)) (getNumSlots m))" .
    from lookup_map_of(1)[OF m(2) this] map_of_rev_last[OF i l] show ?thesis
      by (simp add: m(3))
  qed
  with m(1) size_card_keys[OF m(2)] keys show ?thesis by auto
qed

theorem set_calls_size_and_last_value_witness:
  "\<exists>m. set_calls generateHash (HashMap_new 2) [(1, ''a''), (2, ''b''), (1, ''c'')] = Some m \<and>
        size_hm m = 2 \<and> lookup_hm generateHash ''none'' m 1 = Some ''c'' \<and>
        lookup_hm generateHash ''none'' m 2 = Some ''b''"
proof -
  let ?kvs = "[(1 :: int32, ''a''), (2, ''b''), (1, ''c'')]"
  have h: "hash_in_range generateHash (fst ` set ?kvs)"
    by (rule hash_in_range_generateHash) (simp add: INT_MIN_def)
  have p: "(0 :: int) < 2" "(2 :: int) \<le> 715827882" "length ?kvs < 536870912" by simp_all
  from set_calls_size_and_last_value[OF p(1,2) h p(3), of "''none''"]
  obtain m where m: "set_calls generateHash (HashMap_new 2) ?kvs = Some m"
    "size_hm m = int (card (fst ` set ?kvs))"
    "\<forall>i<length ?kvs. (\<forall>j. i < j \<and> j < length ?kvs \<longrightarrow> fst (?kvs ! j) \<noteq> fst (?kvs ! i)) \<longrightarrow>
        lookup_hm generateHash ''none'' m (fst (?kvs ! i)) = Some (snd (?kvs ! i))"
    by blast
  from m(3)[rule_format, of 2] have l1: "lookup_hm generateHash ''none'' m 1 = Some ''c''" by simp
  have "\<forall>j. 1 < j \<and> j < length ?kvs \<longrightarrow> fst (?kvs ! j) \<noteq> fst (?kvs ! 1)"
  proof (intro allI impI)
    fix j :: nat
    assume "1 < j \<and> j < length ?kvs"
    then have "j = 2" by simp
    then show "fst (?kvs ! j) \<noteq> fst (?kvs ! 1)" by simp
  qed
  with m(3)[rule_format, of 1] have l2: "lookup_hm generateHash ''none'' m 2 = Some ''b''"
    by simp
  have "fst ` set ?kvs = {1, 2}" by auto
  then have "card (fst ` set ?kvs) = 2" by (simp only: card_insert_if finite.intros) simp
  with m(2) have s: "size_hm m = 2" by simp
  show ?thesis by (rule exI[of _ m]) (intro conjI m(1) s l1 l2)
qed

text \<open>
  Without the conditions the calls need not return: with the default hash the minimum int
  is out of range on 101 slots, and no key is in range on a map with no slot.
\<close>

theorem set_calls_out_of_range_counterexample:
  "set_calls generateHash (HashMap_new 101) [(INT_MIN, 7 :: int)] = None \<and>
   set_calls generateHash (HashMap_new 0) [(1, 7 :: int)] = None"
  by code_simp

section \<open>Rebuilding the table keeps the contents\<close>






section \<open>The growth policy\<close>

lemma threshold_real:
  "(c :: int) > (n * 3) div 2 \<longleftrightarrow> real_of_int c > 1.5 * real_of_int n"
proof -
  have "c > (n * 3) div 2 \<longleftrightarrow> 2 * c > 3 * n" by linarith
  also have "\<dots> \<longleftrightarrow> real_of_int (2 * c) > real_of_int (3 * n)" by (simp only: of_int_less_iff)
  also have "\<dots> \<longleftrightarrow> real_of_int c > 1.5 * real_of_int n" by (simp add: mult.commute)
  finally show ?thesis .
qed

lemma small_key_sint:
  assumes "- 2147483648 \<le> i" "i < 2147483648"
  shows "sint (word_of_int i :: int32) = i"
  using assms by (simp add: sint_sbintrunc' signed_take_bit_int_eq_self)

lemma small_keys:
  assumes "set ks \<subseteq> {1..1000}" "distinct ks"
  shows "distinct (map word_of_int ks :: int32 list)" "INT_MIN \<notin> set (map word_of_int ks)"
proof -
  have "inj_on (word_of_int :: int \<Rightarrow> int32) (set ks)"
  proof (rule inj_onI)
    fix x y :: int
    assume x: "x \<in> set ks" and y: "y \<in> set ks"
      and e: "(word_of_int x :: int32) = word_of_int y"
    from x assms(1) have sx: "sint (word_of_int x :: int32) = x" by (intro small_key_sint) auto
    from y assms(1) have sy: "sint (word_of_int y :: int32) = y" by (intro small_key_sint) auto
    have "x = sint (word_of_int x :: int32)" by (rule sx[symmetric])
    also have "\<dots> = sint (word_of_int y :: int32)" by (rule arg_cong[OF e])
    also have "\<dots> = y" by (rule sy)
    finally show "x = y" .
  qed
  with assms(2) show "distinct (map word_of_int ks :: int32 list)"
    by (simp add: distinct_map)
  show "INT_MIN \<notin> set (map word_of_int ks)"
  proof
    assume "INT_MIN \<in> set (map word_of_int ks)"
    then obtain i :: int where i: "i \<in> set ks" "INT_MIN = word_of_int i" by auto
    with assms(1) have r: "1 \<le> i" "i \<le> 1000" by auto
    then have "sint (word_of_int i :: int32) = i" by (intro small_key_sint) auto
    with i(2) have "sint INT_MIN = i" by (simp only:)
    with r(1) show False by (simp add: sint_INT_MIN)
  qed
qed

lemma scenario:
  assumes ks: "set ks \<subseteq> {1..1000}" "distinct ks" "length ks = 1000" "500 \<in> set ks"
  shows "\<exists>m. set_calls generateHash (HashMap_new 101) (map (\<lambda>i. (word_of_int i, f i)) ks) = Some m \<and>
        size_hm m = 1000 \<and> getNumSlots m = 101 * 2 ^ 3 \<and>
        lookup_hm generateHash dflt m 500 = Some (f 500)"
proof -
  let ?kvs = "map (\<lambda>i. (word_of_int i :: int32, f i)) ks"
  let ?m0 = "HashMap_new 101 :: (int32, 'a) HashMap"
  have keys: "map fst ?kvs = map word_of_int ks" by (simp add: comp_def)
  have d: "distinct (map fst ?kvs)" unfolding keys by (rule small_keys(1)[OF ks(1,2)])
  have "fst ` set ?kvs = set (map fst ?kvs)" by (simp only: set_map)
  then have "INT_MIN \<notin> fst ` set ?kvs"
    using small_keys(2)[OF ks(1,2)] unfolding keys by simp
  then have hr: "hash_in_range generateHash (fst ` set ?kvs)"
    by (rule hash_in_range_generateHash)
  have len: "length ?kvs = 1000" using ks(3) by simp
  have "hm_inv generateHash ?m0" "load_ok ?m0" "0 < getNumSlots ?m0" "getNumSlots ?m0 \<le> 715827882"
    "hash_in_range generateHash (keys_of ?m0 \<union> fst ` set ?kvs)"
    "size_hm ?m0 + int (length ?kvs) < 536870912"
    "fst ` set ?kvs \<inter> keys_of ?m0 = {}"
    using hr len by (simp_all add: size_hm_def)
  from set_calls_new_keys[OF this(1,2,3,4,5,6) d this(7)] obtain m where
    m: "set_calls generateHash ?m0 ?kvs = Some m" "hm_inv generateHash m"
      "getNumSlots m = slots_after (size_hm ?m0) (getNumSlots ?m0) (length ?kvs)"
      "size_hm m = size_hm ?m0 + int (length ?kvs)"
      "map_of (entries m) = map_of (entries ?m0) ++ map_of (rev ?kvs)" by blast
  have sa: "slots_after 0 101 1000 = 808" by code_simp
  from m(3) have n: "getNumSlots m = 101 * 2 ^ 3"
    unfolding len by (simp add: size_hm_def sa)
  from m(4) have s: "size_hm m = 1000" unfolding len by (simp add: size_hm_def)
  have mem: "(500 :: int32, f 500) \<in> set (rev ?kvs)"
    using ks(4) by (auto simp: image_iff intro!: bexI[of _ 500])
  have "map fst (rev ?kvs) = rev (map fst ?kvs)" by (simp only: rev_map)
  with d have "distinct (map fst (rev ?kvs))" by (simp only: distinct_rev)
  from map_of_is_SomeI[OF this mem] m(5) have e: "map_of (entries m) 500 = Some (f 500)" by simp
  have "(500 :: int32) \<in> fst ` set ?kvs"
    using ks(4) by (auto simp: image_iff intro!: bexI[of _ 500])
  moreover from n have "0 < length (slots m)" by (simp add: getNumSlots_def)
  ultimately have "generateHashFor generateHash m 500 = Some (generateHash 500 (getNumSlots m))"
    by (rule hash_in_range_Some[OF hr])
  from lookup_map_of(1)[OF m(2) this, of dflt] e
  have l: "lookup_hm generateHash dflt m 500 = Some (f 500)" by simp
  show ?thesis
    by (rule exI[of _ m]) (intro conjI m(1) s n l)
qed


lemma exceeds_small:
  assumes load: "load_ok m" and ex: "real_of_int (size_hm m + 1) > 1.5 * real_of_int (getNumSlots m)"
  shows "getNumSlots m \<le> 715827882"
    "int32 (getNumSlots m * 3) sdiv 2 = (getNumSlots m * 3) div 2"
    "int32 (getNumSlots m * 2) = getNumSlots m * 2"
proof -
  from ex have "size_hm m + 1 > (getNumSlots m * 3) div 2" unfolding threshold_real .
  with load_ok_small[OF load] have "(getNumSlots m * 3) div 2 < 1073741824"
    by (simp add: size_hm_def)
  then show s: "getNumSlots m \<le> 715827882" by linarith
  have n: "0 \<le> getNumSlots m" by (simp add: getNumSlots_def)
  from n s show "int32 (getNumSlots m * 3) sdiv 2 = (getNumSlots m * 3) div 2"
    by (rule threshold_plain)
  from n s show "int32 (getNumSlots m * 2) = getNumSlots m * 2"
    by (intro int32_id) simp_all
qed

text \<open>
  Claim C2. In every map that the public operations produce, a \<open>set\<close> call that inserts a
  new key, after which the item count exceeds 1.5 times the slot count, puts the entry
  into its chain, counts it, and rebuilds the table by \<open>remapTable\<close> with twice the slot
  count; a \<open>set\<close> call on a key that the map contains never finds the item count above
  1.5 times the slot count, and keeps the size and the slot count. With at least one and at
  most 715827882 slots, fewer than \<open>2^29\<close> items after the call and a hash function in
  range on the keys involved, the call returns, and the slot count afterwards is twice the
  old one if the item count after the insertion exceeds 1.5 times the slot count, and the
  old one otherwise. Inserting the keys 1 to 1000, with the default integer hash and any
  values, into a map constructed with 101 slots leaves \<open>size() = 1000\<close>, a slot count
  doubled three times (808), and \<open>operator[]\<close> on key 500 returns the value assigned to
  key 500.
\<close>

theorem set_growth_policy:
  "(reachable gh m \<and> contains gh m k = Some False \<and>
      real_of_int (size_hm m + 1) > 1.5 * real_of_int (getNumSlots m) \<longrightarrow>
      (\<exists>h. generateHashFor gh m k = Some h \<and>
         set_hm gh m k v =
           remapTable gh (m\<lparr>slots := (slots m)[nat h := (k, v) # slots m ! nat h],
                            totalNumItems := totalNumItems m + 1\<rparr>) (getNumSlots m * 2))) \<and>
   (reachable gh m \<and> contains gh m k = Some True \<longrightarrow>
      \<not> real_of_int (size_hm m) > 1.5 * real_of_int (getNumSlots m) \<and>
      (\<exists>m'. set_hm gh m k v = Some m' \<and> size_hm m' = size_hm m \<and>
            getNumSlots m' = getNumSlots m)) \<and>
   (reachable gh m \<and> 0 < getNumSlots m \<and> getNumSlots m \<le> 715827882 \<and>
      size_hm m + 1 < 536870912 \<and> hash_in_range gh (insert k (keys_of m)) \<longrightarrow>
      (\<exists>m'. set_hm gh m k v = Some m' \<and>
         getNumSlots m' =
           (if real_of_int (if contains gh m k = Some True then size_hm m else size_hm m + 1)
                 > 1.5 * real_of_int (getNumSlots m)
            then getNumSlots m * 2 else getNumSlots m))) \<and>
   (\<exists>m. set_calls generateHash (HashMap_new 101) (map (\<lambda>i. (word_of_int i, f i)) [1..1000]) = Some m \<and>
        size_hm m = 1000 \<and> getNumSlots m = 101 * 2 ^ 3 \<and>
        lookup_hm generateHash dflt m 500 = Some (f 500))"
proof (intro conjI impI)
  assume a: "reachable gh m \<and> contains gh m k = Some False \<and>
      real_of_int (size_hm m + 1) > 1.5 * real_of_int (getNumSlots m)"
  then have load: "load_ok m" using reachable_inv[of gh m] by simp
  from a have ex: "real_of_int (size_hm m + 1) > 1.5 * real_of_int (getNumSlots m)" by simp
  note s = exceeds_small[OF load ex]
  from a obtain h where h: "generateHashFor gh m k = Some h"
    "find_chain k (slots m ! nat h) = None"
    by (auto simp: contains_def split: option.splits)
  from ex have "totalNumItems m + 1 > (getNumSlots m * 3) div 2"
    unfolding threshold_real[symmetric] by (simp add: size_hm_def)
  with set_hm_new_key[OF h, of v] h(1)
  show "\<exists>h. generateHashFor gh m k = Some h \<and>
         set_hm gh m k v =
           remapTable gh (m\<lparr>slots := (slots m)[nat h := (k, v) # slots m ! nat h],
                            totalNumItems := totalNumItems m + 1\<rparr>) (getNumSlots m * 2)"
    by (simp add: s(2,3))
next
  assume a: "reachable gh m \<and> contains gh m k = Some True"
  then have inv: "hm_inv gh m" and load: "load_ok m" using reachable_inv[of gh m] by simp_all
  from load_ok_plain[OF load] have "\<not> size_hm m > (getNumSlots m * 3) div 2"
    by (simp add: size_hm_def)
  then show "\<not> real_of_int (size_hm m) > 1.5 * real_of_int (getNumSlots m)"
    unfolding threshold_real .
next
  assume a: "reachable gh m \<and> contains gh m k = Some True"
  then obtain h where h: "generateHashFor gh m k = Some h"
    "find_chain k (slots m ! nat h) \<noteq> None"
    by (auto simp: contains_def split: option.splits)
  from set_hm_existing_key[OF h, of v]
  show "\<exists>m'. set_hm gh m k v = Some m' \<and> size_hm m' = size_hm m \<and>
            getNumSlots m' = getNumSlots m"
    by (auto simp: size_hm_def getNumSlots_def)
next
  assume a: "reachable gh m \<and> 0 < getNumSlots m \<and> getNumSlots m \<le> 715827882 \<and>
      size_hm m + 1 < 536870912 \<and> hash_in_range gh (insert k (keys_of m))"
  then have inv: "hm_inv gh m" and load: "load_ok m" and pos: "0 < getNumSlots m"
    and small: "getNumSlots m \<le> 715827882" and cnt: "totalNumItems m + 1 < 536870912"
    and hr: "hash_in_range gh (insert k (keys_of m))"
    using reachable_inv[of gh m] by (simp_all add: size_hm_def)
  from pos have lpos: "0 < length (slots m)" by (simp add: getNumSlots_def)
  from hr lpos have h: "generateHashFor gh m k = Some (gh k (getNumSlots m))"
    by (intro hash_in_range_Some[where K = "insert k (keys_of m)"]) simp_all
  note c = lookup_map_of(2)[OF inv h]
  show "\<exists>m'. set_hm gh m k v = Some m' \<and>
         getNumSlots m' =
           (if real_of_int (if contains gh m k = Some True then size_hm m else size_hm m + 1)
                 > 1.5 * real_of_int (getNumSlots m)
            then getNumSlots m * 2 else getNumSlots m)"
  proof (cases "k \<in> keys_of m")
    case True
    from load_ok_plain[OF load] have "\<not> size_hm m > (getNumSlots m * 3) div 2"
      by (simp add: size_hm_def)
    then have "\<not> real_of_int (size_hm m) > 1.5 * real_of_int (getNumSlots m)"
      unfolding threshold_real .
    with set_existing_key_step[OF inv h True, of v] c True show ?thesis by auto
  next
    case False
    from set_new_key_step[OF inv load pos small cnt hr False, of v] c False show ?thesis
      unfolding threshold_real by auto
  qed
next
  have "set [1..1000 :: int] \<subseteq> {1..1000}" "distinct [1..1000 :: int]"
    "length [1..1000 :: int] = 1000" "500 \<in> set [1..1000 :: int]"
    by (simp_all only: set_upto distinct_upto length_upto) simp_all
  then show "\<exists>m. set_calls generateHash (HashMap_new 101) (map (\<lambda>i. (word_of_int i, f i)) [1..1000]) = Some m \<and>
        size_hm m = 1000 \<and> getNumSlots m = 101 * 2 ^ 3 \<and>
        lookup_hm generateHash dflt m 500 = Some (f 500)"
    by (rule scenario)
qed

theorem set_growth_policy_witness:
  "reachable generateHash \<lparr>slots = [[(1, ''a'')]], totalNumItems = 1\<rparr> \<and>
   set_hm generateHash \<lparr>slots = [[(1, ''a'')]], totalNumItems = 1\<rparr> 2 ''b'' =
     remapTable generateHash \<lparr>slots = [[(2, ''b''), (1, ''a'')]], totalNumItems = 2\<rparr> 2 \<and>
   (\<exists>m'. set_hm generateHash \<lparr>slots = [[(1, ''a'')]], totalNumItems = 1\<rparr> 2 ''b'' = Some m' \<and>
         getNumSlots m' = 2) \<and>
   (\<exists>m'. set_hm generateHash \<lparr>slots = [[(1, ''a'')]], totalNumItems = 1\<rparr> 1 ''c'' = Some m' \<and>
         size_hm m' = 1 \<and> getNumSlots m' = 1)"
proof -
  let ?m = "\<lparr>slots = [[(1 :: int32, ''a'')]], totalNumItems = 1\<rparr>"
  have s1: "set_hm generateHash (HashMap_new 1) 1 ''a'' = Some ?m" by code_simp
  have r: "reachable generateHash ?m" by (rule r_set[OF r_new s1])
  have pos: "0 < getNumSlots ?m" "getNumSlots ?m \<le> 715827882" "size_hm ?m + 1 < 536870912"
    by (simp_all add: getNumSlots_def size_hm_def)
  have k: "keys_of ?m = {1}" by (simp add: keys_of_def entries_def)
  have hr: "hash_in_range generateHash (insert 2 (keys_of ?m))"
    unfolding k by (rule hash_in_range_generateHash) (simp add: INT_MIN_def)
  have c: "contains generateHash ?m 2 = Some False" by code_simp
  have c1: "contains generateHash ?m 1 = Some True" by code_simp
  have g: "generateHashFor generateHash ?m 2 = Some 0" by code_simp
  have ex: "real_of_int (size_hm ?m + 1) > 1.5 * real_of_int (getNumSlots ?m)"
    by (simp add: getNumSlots_def size_hm_def)
  from set_growth_policy[of generateHash ?m 2 "''b''", THEN conjunct1] r c ex
  have "\<exists>h. generateHashFor generateHash ?m 2 = Some h \<and>
         set_hm generateHash ?m 2 ''b'' =
           remapTable generateHash (?m\<lparr>slots := (slots ?m)[nat h := (2, ''b'') # slots ?m ! nat h],
                            totalNumItems := totalNumItems ?m + 1\<rparr>) (getNumSlots ?m * 2)"
    by blast
  then have p1: "set_hm generateHash ?m 2 ''b'' =
      remapTable generateHash \<lparr>slots = [[(2, ''b''), (1, ''a'')]], totalNumItems = 2\<rparr> 2"
    by (simp add: g getNumSlots_def)
  from set_growth_policy[of generateHash ?m 1 "''c''", THEN conjunct2, THEN conjunct1] r c1
  have p2: "\<exists>m'. set_hm generateHash ?m 1 ''c'' = Some m' \<and> size_hm m' = 1 \<and> getNumSlots m' = 1"
    by (simp add: getNumSlots_def size_hm_def)
  from set_growth_policy[of generateHash ?m 2 "''b''", THEN conjunct2, THEN conjunct2, THEN conjunct1]
    r pos hr
  have "\<exists>m'. set_hm generateHash ?m 2 ''b'' = Some m' \<and>
         getNumSlots m' =
           (if real_of_int (if contains generateHash ?m 2 = Some True then size_hm ?m else size_hm ?m + 1)
                 > 1.5 * real_of_int (getNumSlots ?m)
            then getNumSlots ?m * 2 else getNumSlots ?m)"
    by blast
  then have p3: "\<exists>m'. set_hm generateHash ?m 2 ''b'' = Some m' \<and> getNumSlots m' = 2"
    by (simp add: c size_hm_def getNumSlots_def)
  from r p1 p2 p3 show ?thesis by blast
qed

end
